theory Spec2Isabelle
  imports Complex_Main
begin

text \<open>
  The delivery pipeline of the error monitoring SDK: the ring buffer of breadcrumbs, the
  batch queue, the offline cache and the capture and report methods of the monitor,
  each translated from its TypeScript source, followed by the properties proved of
  them. Objects that the code shares and mutates (the arrays of the ring buffer, the
  cached reports) live in explicit stores; what a method does to its surroundings
  (timers, \<open>localStorage\<close>, the calls of senders and hooks, the console) is recorded in
  the state it returns; an exception is a value returned beside that state.
\<close>

section \<open>JavaScript arrays and the object store\<close>

text \<open>
  A JavaScript array is an object: a map from property keys to values together with
  its \<open>length\<close>. The keys used by the code are array indices (\<open>Some i\<close>) and,
  when an index computation yields \<open>NaN\<close>, the property named \<open>NaN\<close> (\<open>None\<close>).
  A key with no value reads as \<open>undefined\<close> (\<open>None\<close>).
  Arrays live in a store, addressed by position; a fresh array is appended to it.
\<close>

type_synonym addr = nat

record 'a js_array =
  elems :: "nat option \<Rightarrow> 'a option"
  len :: nat

type_synonym 'a heap = "'a js_array list"

definition new_Array :: "nat \<Rightarrow> 'a js_array" where
  "new_Array n = \<lparr>elems = (\<lambda>k. None), len = n\<rparr>"

definition array_set :: "'a js_array \<Rightarrow> nat option \<Rightarrow> 'a \<Rightarrow> 'a js_array" where
  "array_set a k v =
     \<lparr>elems = (elems a)(k \<mapsto> v),
      len = (case k of None \<Rightarrow> len a | Some i \<Rightarrow> max (len a) (Suc i))\<rparr>"

definition array_push :: "'a js_array \<Rightarrow> 'a \<Rightarrow> 'a js_array" where
  "array_push a v = \<lparr>elems = (elems a)(Some (len a) \<mapsto> v), len = Suc (len a)\<rparr>"

definition array_items :: "'a js_array \<Rightarrow> 'a option list" where
  "array_items a = map (\<lambda>i. elems a (Some i)) [0..<len a]"

text \<open>Index arithmetic on JavaScript numbers: \<open>None\<close> is \<open>NaN\<close>; \<open>x % 0\<close> is \<open>NaN\<close>.\<close>

definition js_plus :: "nat option \<Rightarrow> nat \<Rightarrow> nat option" where
  "js_plus a n = (case a of None \<Rightarrow> None | Some x \<Rightarrow> Some (x + n))"

definition js_mod :: "nat option \<Rightarrow> nat \<Rightarrow> nat option" where
  "js_mod a c = (case a of None \<Rightarrow> None | Some x \<Rightarrow> if c = 0 then None else Some (x mod c))"

section \<open>RingBuffer\<close>

text \<open>
  The private class of the monitor. Its capacity is a natural number (\<open>new Array\<close>
  accepts nothing else); its items are values, never \<open>undefined\<close> (the monitor pushes
  object literals).
\<close>

record RingBuffer =
  buffer :: addr
  capacity :: nat
  head :: "nat option"
  tail :: "nat option"
  rb_size :: nat

definition RingBuffer_new :: "'a heap \<Rightarrow> nat \<Rightarrow> 'a heap \<times> RingBuffer" where
  "RingBuffer_new h cap =
     (h @ [new_Array cap],
      \<lparr>buffer = length h, capacity = cap, head = Some 0, tail = Some 0, rb_size = 0\<rparr>)"

definition RingBuffer_push :: "'a \<Rightarrow> 'a heap \<times> RingBuffer \<Rightarrow> 'a heap \<times> RingBuffer" where
  "RingBuffer_push item s =
     (let (h, rb) = s;
          h1 = h[buffer rb := array_set (h ! buffer rb) (tail rb) item];
          rb1 = rb\<lparr>tail := js_mod (js_plus (tail rb) 1) (capacity rb)\<rparr>
      in if rb_size rb1 < capacity rb1
         then (h1, rb1\<lparr>rb_size := rb_size rb1 + 1\<rparr>)
         else (h1, rb1\<lparr>head := js_mod (js_plus (head rb1) 1) (capacity rb1)\<rparr>))"

function toArray_loop :: "'a heap \<Rightarrow> RingBuffer \<Rightarrow> addr \<Rightarrow> nat \<Rightarrow> 'a heap" where
  "toArray_loop h rb result i =
     (if i < rb_size rb
      then let index = js_mod (js_plus (head rb) i) (capacity rb);
               item = elems (h ! buffer rb) index
           in toArray_loop
                (case item of None \<Rightarrow> h
                 | Some v \<Rightarrow> h[result := array_push (h ! result) v])
                rb result (i + 1)
      else h)"
  by pat_completeness auto
termination
  by (relation "measure (\<lambda>(h, rb, result, i). rb_size rb - i)") auto

definition RingBuffer_toArray :: "'a heap \<times> RingBuffer \<Rightarrow> 'a heap \<times> addr" where
  "RingBuffer_toArray s =
     (let (h, rb) = s;
          result = length h;
          h1 = h @ [new_Array 0]
      in (toArray_loop h1 rb result 0, result))"

section \<open>Exceptions and callbacks\<close>

text \<open>
  A JavaScript exception is a value. A call that can raise returns the state it leaves
  behind together with the exception, if any: mutations made before a \<open>throw\<close> stay.
  \<open>HostError\<close> is an exception raised by a function the host application supplies
  (a plugin hook, a custom reporter) or by a browser primitive.
\<close>

datatype js_error = ReferenceError string | TypeError string | HostError string

type_synonym 's outcome = "'s \<times> js_error option"

text \<open>
  What a call of a \<open>sender\<close> callback (\<open>void | Promise<void>\<close>) does: it returns
  (nothing, or a promise that resolves), it throws, or it returns a promise that rejects.
  A sender is given by its behaviour at its \<open>n\<close>-th call, so that it may fail at one
  call and succeed at the next.
\<close>

datatype sender_result = Returns | Throws js_error | Rejects js_error

section \<open>BatchQueue\<close>

record 'r QueuedReport =
  q_report :: 'r
  q_timestamp :: nat

record BatchQueueConfig =
  batchSize :: int
  delay :: int
  bq_enabled :: bool

text \<open>The constructor's argument and the argument of \<open>updateConfig\<close>: any field may be missing.\<close>

record BatchQueueConfig_partial =
  p_batchSize :: "int option"
  p_delay :: "int option"
  p_enabled :: "bool option"

text \<open>
  The object's fields are \<open>queue\<close>, \<open>bq_config\<close>, \<open>timerId\<close> and \<open>bq_sender\<close>. The other
  fields are the part of the environment the queue acts on: whether \<open>window\<close> exists,
  the delayed-flush timers pending in it (identifier and due time), the next timer
  identifier \<open>setTimeout\<close> hands out, the arguments of the calls of \<open>sender\<close> so far
  (oldest first), and the lines written by \<open>console.error\<close>.
\<close>

record 'r BatchQueue =
  queue :: "'r QueuedReport list"
  bq_config :: BatchQueueConfig
  timerId :: "nat option"
  bq_sender :: "nat \<Rightarrow> 'r list \<Rightarrow> sender_result"
  has_window :: bool
  timers :: "(nat \<times> int) list"
  next_timer :: nat
  bq_sent :: "'r list list"
  bq_console :: "string list"

definition BatchQueue_new ::
  "BatchQueueConfig_partial \<Rightarrow> (nat \<Rightarrow> 'r list \<Rightarrow> sender_result) \<Rightarrow> bool \<Rightarrow> nat \<Rightarrow> 'r BatchQueue" where
  "BatchQueue_new cfg sender window first_timer =
     \<lparr>queue = [],
      bq_config = \<lparr>batchSize = (case p_batchSize cfg of None \<Rightarrow> 10 | Some b \<Rightarrow> if b = 0 then 10 else b),
                   delay = (case p_delay cfg of None \<Rightarrow> 1000 | Some d \<Rightarrow> if d = 0 then 1000 else d),
                   bq_enabled = (p_enabled cfg \<noteq> Some False)\<rparr>,
      timerId = None,
      bq_sender = sender,
      has_window = window,
      timers = [],
      next_timer = first_timer,
      bq_sent = [],
      bq_console = []\<rparr>"

definition call_sender :: "'r list \<Rightarrow> 'r BatchQueue \<Rightarrow> 'r BatchQueue \<times> sender_result" where
  "call_sender reports q =
     (q\<lparr>bq_sent := bq_sent q @ [reports]\<rparr>, bq_sender q (length (bq_sent q)) reports)"

definition sendReports :: "'r list \<Rightarrow> 'r BatchQueue \<Rightarrow> 'r BatchQueue" where
  "sendReports reports q =
     (let (q1, result) = call_sender reports q
      in case result of
           Returns \<Rightarrow> q1
         | Rejects e \<Rightarrow> q1\<lparr>bq_console := bq_console q1 @ [''[BatchQueue] Failed to send reports:'']\<rparr>
         | Throws e \<Rightarrow> q1\<lparr>bq_console := bq_console q1 @ [''[BatchQueue] Error sending reports:'']\<rparr>)"

definition clearTimeout :: "nat \<Rightarrow> 'r BatchQueue \<Rightarrow> 'r BatchQueue" where
  "clearTimeout t q = q\<lparr>timers := filter (\<lambda>(i, due). i \<noteq> t) (timers q)\<rparr>"

definition BatchQueue_flush :: "'r BatchQueue \<Rightarrow> 'r BatchQueue outcome" where
  "BatchQueue_flush q =
     (if timerId q \<noteq> None \<and> \<not> has_window q then (q, Some (ReferenceError ''window''))
      else
        let q1 = (case timerId q of None \<Rightarrow> q
                  | Some t \<Rightarrow> (clearTimeout t q)\<lparr>timerId := None\<rparr>)
        in if length (queue q1) = 0 then (q1, None)
           else let reports = map q_report (queue q1);
                    q2 = sendReports reports q1
                in (q2\<lparr>queue := []\<rparr>, None))"

definition scheduleFlush :: "nat \<Rightarrow> 'r BatchQueue \<Rightarrow> 'r BatchQueue outcome" where
  "scheduleFlush now q =
     (if timerId q \<noteq> None then (q, None)
      else if \<not> has_window q then (q, Some (ReferenceError ''window''))
      else (q\<lparr>timerId := Some (next_timer q),
               timers := timers q @ [(next_timer q, int now + delay (bq_config q))],
               next_timer := next_timer q + 1\<rparr>, None))"

definition BatchQueue_add :: "'r \<Rightarrow> nat \<Rightarrow> 'r BatchQueue \<Rightarrow> 'r BatchQueue outcome" where
  "BatchQueue_add report now q =
     (if \<not> bq_enabled (bq_config q)
      then let (q1, result) = call_sender [report] q
           in (q1, case result of Throws e \<Rightarrow> Some e | _ \<Rightarrow> None)
      else
        let q1 = q\<lparr>queue := queue q @ [\<lparr>q_report = report, q_timestamp = now\<rparr>]\<rparr>
        in if int (length (queue q1)) \<ge> batchSize (bq_config q1)
           then BatchQueue_flush q1
           else scheduleFlush now q1)"

text \<open>The callback registered by \<open>scheduleFlush\<close> runs when its timer \<open>t\<close> comes due.\<close>

definition timer_fires :: "nat \<Rightarrow> 'r BatchQueue \<Rightarrow> 'r BatchQueue outcome" where
  "timer_fires t q =
     (if t \<in> fst ` set (timers q) then BatchQueue_flush (clearTimeout t q) else (q, None))"

definition BatchQueue_clear :: "'r BatchQueue \<Rightarrow> 'r BatchQueue outcome" where
  "BatchQueue_clear q =
     (let q1 = q\<lparr>queue := []\<rparr>
      in case timerId q1 of None \<Rightarrow> (q1, None)
         | Some t \<Rightarrow> if has_window q1 then ((clearTimeout t q1)\<lparr>timerId := None\<rparr>, None)
                     else (q1, Some (ReferenceError ''window'')))"

definition BatchQueue_updateConfig :: "BatchQueueConfig_partial \<Rightarrow> 'r BatchQueue \<Rightarrow> 'r BatchQueue" where
  "BatchQueue_updateConfig cfg q =
     q\<lparr>bq_config :=
         \<lparr>batchSize = (case p_batchSize cfg of None \<Rightarrow> batchSize (bq_config q) | Some b \<Rightarrow> b),
          delay = (case p_delay cfg of None \<Rightarrow> delay (bq_config q) | Some d \<Rightarrow> d),
          bq_enabled = (case p_enabled cfg of None \<Rightarrow> bq_enabled (bq_config q) | Some e \<Rightarrow> e)\<rparr>\<rparr>"

definition BatchQueue_destroy :: "'r BatchQueue \<Rightarrow> 'r BatchQueue outcome" where
  "BatchQueue_destroy q = BatchQueue_flush q"

text \<open>A caller adding reports one after the other; it stops at the first exception.\<close>

fun BatchQueue_adds :: "('r \<times> nat) list \<Rightarrow> 'r BatchQueue \<Rightarrow> 'r BatchQueue outcome" where
  "BatchQueue_adds [] q = (q, None)"
| "BatchQueue_adds ((report, now) # rest) q =
     (case BatchQueue_add report now q of
        (q1, None) \<Rightarrow> BatchQueue_adds rest q1
      | (q1, Some e) \<Rightarrow> (q1, Some e))"

text \<open>
  Everything that can happen to a queue: the calls of its public methods, a pending timer
  coming due, and the \<open>pagehide\<close> and \<open>beforeunload\<close> listeners, which call \<open>flush\<close>.
  An exception raised by a call goes to its caller; the queue lives on.
\<close>

datatype 'r bq_event =
  Add 'r nat | Flush | TimerFires nat | Clear | UpdateConfig BatchQueueConfig_partial
  | Destroy | PageHide

fun bq_step :: "'r bq_event \<Rightarrow> 'r BatchQueue \<Rightarrow> 'r BatchQueue outcome" where
  "bq_step (Add report now) q = BatchQueue_add report now q"
| "bq_step Flush q = BatchQueue_flush q"
| "bq_step (TimerFires t) q = timer_fires t q"
| "bq_step Clear q = BatchQueue_clear q"
| "bq_step (UpdateConfig cfg) q = (BatchQueue_updateConfig cfg q, None)"
| "bq_step Destroy q = BatchQueue_destroy q"
| "bq_step PageHide q = BatchQueue_flush q"

fun bq_run :: "'r bq_event list \<Rightarrow> 'r BatchQueue \<Rightarrow> 'r BatchQueue" where
  "bq_run [] q = q"
| "bq_run (e # es) q = bq_run es (fst (bq_step e q))"

text \<open>
  The invariant of a queue: the timer the queue holds in \<open>timerId\<close> is the one pending
  delayed flush; where \<open>window\<close> exists a timer is pending exactly while reports wait,
  and where it does not no timer is ever created.
\<close>

definition bq_inv :: "'r BatchQueue \<Rightarrow> bool" where
  "bq_inv q \<longleftrightarrow>
     map fst (timers q) = (case timerId q of None \<Rightarrow> [] | Some t \<Rightarrow> [t]) \<and>
     (if has_window q then timerId q = None \<longleftrightarrow> queue q = [] else timerId q = None)"

section \<open>OfflineCache\<close>

record 'r CachedReport =
  c_report :: 'r
  c_timestamp :: nat
  retryCount :: nat

record OfflineCacheConfig =
  maxCacheSize :: int
  oc_enabled :: bool
  storageKey :: string

record OfflineCacheConfig_partial =
  p_maxCacheSize :: "int option"
  p_oc_enabled :: "bool option"
  p_storageKey :: "string option"

text \<open>
  \<open>localStorage\<close> maps a key to a string. The strings of interest are the serialised
  arrays of cached reports (\<open>JSON.stringify\<close> followed by \<open>JSON.parse\<close> gives back the
  same values, reports being JSON data) and non-empty strings that \<open>JSON.parse\<close>
  rejects.
  \<open>setItem\<close> may throw (quota exceeded, storage disabled).
\<close>

datatype 'r stored = Items "'r CachedReport list" | Malformed

record 'r localStorage =
  items :: "string \<Rightarrow> 'r stored option"
  setItem_throws :: bool

text \<open>
  The \<open>CachedReport\<close> objects live in a store (\<open>objs\<close>): the queue and the copy of it
  that \<open>flush\<close> iterates over hold references to the same objects, and \<open>indexOf\<close>
  compares references. The object's fields are \<open>oc_config\<close>, \<open>cacheQueue\<close>, \<open>isOnline\<close>
  and \<open>oc_sender\<close>. The environment: \<open>localStorage\<close> (if there is one), the arguments of
  the calls of \<open>sender\<close> so far, the successful \<open>setItem\<close> calls so far, the console.

  \<open>flush\<close> is an \<open>async\<close> function: a call runs up to its first \<open>await\<close> and returns;
  the rest of the pass runs later, one continuation at a time, while other calls (and
  other passes) act on the same cache in between. An activation suspended at its
  \<open>await\<close> is a \<open>FlushPass\<close>: the item whose attempt it awaits, whether the awaited promise
  rejects, what is left of \<open>reportsToRetry\<close>, and \<open>failedReports\<close>. \<open>passes\<close> holds the
  suspended activations, \<open>passes_started\<close> counts the passes begun so far (a pass is
  numbered by the count at its start), and \<open>pass_log\<close> records, oldest first, what the
  passes did: a call of the sender for an item, the outcome of an attempt, the call of
  \<open>saveToStorage\<close> that ends a pass.
\<close>

datatype pass_entry = Attempt nat addr | Settle nat addr bool | Persist nat

record FlushPass =
  fp_id :: nat
  fp_awaited :: addr
  fp_rejects :: bool
  fp_rest :: "addr list"
  fp_failed :: "addr list"

record 'r OfflineCache =
  oc_config :: OfflineCacheConfig
  cacheQueue :: "addr list"
  objs :: "'r CachedReport list"
  isOnline :: bool
  oc_sender :: "nat \<Rightarrow> 'r \<Rightarrow> sender_result"
  localStorage :: "'r localStorage option"
  oc_sent :: "'r list"
  oc_writes :: "(string \<times> 'r CachedReport list) list"
  oc_console :: "string list"
  passes :: "FlushPass list"
  passes_started :: nat
  pass_log :: "pass_entry list"

definition saveToStorage :: "'r OfflineCache \<Rightarrow> 'r OfflineCache" where
  "saveToStorage s =
     (case localStorage s of
        None \<Rightarrow> s
      | Some ls \<Rightarrow>
          if setItem_throws ls
          then s\<lparr>oc_console := oc_console s @ [''[OfflineCache] Failed to save to localStorage:'']\<rparr>
          else let key = storageKey (oc_config s);
                   val = map (\<lambda>a. objs s ! a) (cacheQueue s)
               in s\<lparr>localStorage := Some (ls\<lparr>items := (items ls)(key \<mapsto> Items val)\<rparr>),
                    oc_writes := oc_writes s @ [(key, val)]\<rparr>)"

definition loadFromStorage :: "'r OfflineCache \<Rightarrow> 'r OfflineCache" where
  "loadFromStorage s =
     (case localStorage s of
        None \<Rightarrow> s
      | Some ls \<Rightarrow>
          (case items ls (storageKey (oc_config s)) of
             None \<Rightarrow> s
           | Some Malformed \<Rightarrow>
               s\<lparr>oc_console := oc_console s @ [''[OfflineCache] Failed to load from localStorage:''],
                 cacheQueue := []\<rparr>
           | Some (Items cached) \<Rightarrow>
               s\<lparr>objs := objs s @ cached,
                 cacheQueue := [length (objs s)..<length (objs s) + length cached],
                 oc_console := oc_console s @ [''[OfflineCache] Loaded cached reports from storage'']\<rparr>))"

definition OfflineCache_new ::
  "OfflineCacheConfig_partial \<Rightarrow> (nat \<Rightarrow> 'r \<Rightarrow> sender_result) \<Rightarrow> bool option \<Rightarrow>
   'r localStorage option \<Rightarrow> 'r OfflineCache" where
  "OfflineCache_new cfg sender navigator_onLine storage =
     loadFromStorage
       \<lparr>oc_config =
          \<lparr>maxCacheSize = (case p_maxCacheSize cfg of None \<Rightarrow> 100 | Some m \<Rightarrow> if m = 0 then 100 else m),
           oc_enabled = (p_oc_enabled cfg \<noteq> Some False),
           storageKey = (case p_storageKey cfg of None \<Rightarrow> ''error_monitor_cache''
                         | Some k \<Rightarrow> if k = [] then ''error_monitor_cache'' else k)\<rparr>,
        cacheQueue = [],
        objs = [],
        isOnline = (case navigator_onLine of None \<Rightarrow> True | Some b \<Rightarrow> b),
        oc_sender = sender,
        localStorage = storage,
        oc_sent = [],
        oc_writes = [],
        oc_console = [],
        passes = [],
        passes_started = 0,
        pass_log = []\<rparr>"

definition OfflineCache_cache :: "'r \<Rightarrow> nat \<Rightarrow> 'r OfflineCache \<Rightarrow> 'r OfflineCache" where
  "OfflineCache_cache report now s =
     (if \<not> oc_enabled (oc_config s) then s
      else
        let cachedReport = length (objs s);
            s1 = s\<lparr>objs := objs s @ [\<lparr>c_report = report, c_timestamp = now, retryCount = 0\<rparr>]\<rparr>;
            s2 = s1\<lparr>cacheQueue := cacheQueue s1 @ [cachedReport]\<rparr>;
            s3 = (if int (length (cacheQueue s2)) > maxCacheSize (oc_config s2)
                  then s2\<lparr>cacheQueue := tl (cacheQueue s2)\<rparr> else s2)
        in saveToStorage s3)"

definition oc_call_sender :: "'r \<Rightarrow> 'r OfflineCache \<Rightarrow> 'r OfflineCache \<times> sender_result" where
  "oc_call_sender report s =
     (s\<lparr>oc_sent := oc_sent s @ [report]\<rparr>, oc_sender s (length (oc_sent s)) report)"

definition OfflineCache_send :: "'r \<Rightarrow> nat \<Rightarrow> 'r OfflineCache \<Rightarrow> 'r OfflineCache outcome" where
  "OfflineCache_send report now s =
     (if isOnline s
      then let (s1, result) = oc_call_sender report s
           in (s1, case result of Throws e \<Rightarrow> Some e | _ \<Rightarrow> None)
      else (OfflineCache_cache report now s, None))"

text \<open>
  The body of the \<open>try\<close> after the \<open>await\<close>, and the \<open>catch\<close> block: what pass \<open>pass\<close> does
  once the attempt for \<open>cachedReport\<close> has succeeded or failed. \<open>indexOf\<close> followed by
  \<open>splice\<close> removes the first reference to the object, if the queue still holds one.
\<close>

definition settle ::
  "nat \<Rightarrow> addr \<Rightarrow> bool \<Rightarrow> addr list \<Rightarrow> 'r OfflineCache \<Rightarrow> 'r OfflineCache \<times> addr list" where
  "settle pass cachedReport succeeded failedReports s =
     (let s0 = s\<lparr>pass_log := pass_log s @ [Settle pass cachedReport succeeded]\<rparr>
      in if succeeded
         then (s0\<lparr>cacheQueue := remove1 cachedReport (cacheQueue s0)\<rparr>, failedReports)
         else
           let c = objs s0 ! cachedReport;
               s1 = s0\<lparr>objs := (objs s0)[cachedReport := c\<lparr>retryCount := retryCount c + 1\<rparr>]\<rparr>
           in if retryCount (objs s1 ! cachedReport) > 3
              then (s1\<lparr>oc_console := oc_console s1 @
                          [''[OfflineCache] Max retry count exceeded, dropping report:''],
                       cacheQueue := remove1 cachedReport (cacheQueue s1)\<rparr>,
                    failedReports)
              else (s1, failedReports @ [cachedReport]))"

text \<open>
  The loop of \<open>flush\<close> over what is left of \<open>reportsToRetry\<close>, from the head of an
  iteration to the next suspension or to the end of the function. The sender is called
  for the item. When it throws, the \<open>catch\<close> block runs at once and the loop goes on;
  otherwise the function is suspended at its \<open>await\<close> with the sender's result (a value
  or a promise that resolves, or a promise that rejects). After the last item the queue
  is saved and the pass is over.
\<close>

fun flush_from :: "nat \<Rightarrow> addr list \<Rightarrow> addr list \<Rightarrow> 'r OfflineCache \<Rightarrow> 'r OfflineCache" where
  "flush_from pass [] failedReports s =
     (let s1 = saveToStorage (s\<lparr>pass_log := pass_log s @ [Persist pass]\<rparr>)
      in if length failedReports > 0
         then s1\<lparr>oc_console := oc_console s1 @ [''[OfflineCache] reports failed to send, will retry later'']\<rparr>
         else s1)"
| "flush_from pass (cachedReport # rest) failedReports s =
     (let (s1, result) = oc_call_sender (c_report (objs s ! cachedReport)) s;
          s2 = s1\<lparr>pass_log := pass_log s1 @ [Attempt pass cachedReport]\<rparr>
      in case result of
           Throws e \<Rightarrow>
             (let (s3, failed) = settle pass cachedReport False failedReports s2
              in flush_from pass rest failed s3)
         | _ \<Rightarrow>
             s2\<lparr>passes := passes s2 @
                  [\<lparr>fp_id = pass, fp_awaited = cachedReport, fp_rejects = (result \<noteq> Returns),
                    fp_rest = rest, fp_failed = failedReports\<rparr>]\<rparr>)"

text \<open>
  A call of \<open>flush\<close>: the part of the pass that runs before the call returns.
\<close>

definition OfflineCache_flush :: "'r OfflineCache \<Rightarrow> 'r OfflineCache" where
  "OfflineCache_flush s =
     (if length (cacheQueue s) = 0 then s
      else
        let reportsToRetry = cacheQueue s
        in flush_from (passes_started s) reportsToRetry []
             (s\<lparr>passes_started := passes_started s + 1\<rparr>))"

text \<open>
  The awaited promise of pass \<open>pass\<close> is settled and the pass goes on: the outcome of
  the attempt is dealt with and the loop continues with the next item. Nothing happens
  when no such pass is suspended.
\<close>

definition flush_resumes :: "nat \<Rightarrow> 'r OfflineCache \<Rightarrow> 'r OfflineCache" where
  "flush_resumes pass s =
     (case find (\<lambda>p. fp_id p = pass) (passes s) of
        None \<Rightarrow> s
      | Some p \<Rightarrow>
          let s1 = s\<lparr>passes := remove1 p (passes s)\<rparr>;
              (s2, failed) = settle pass (fp_awaited p) (\<not> fp_rejects p) (fp_failed p) s1
          in flush_from pass (fp_rest p) failed s2)"

text \<open>
  \<open>handleOnline\<close> calls \<open>flush\<close> and does not wait for the promise it returns.
\<close>

definition handleOnline :: "'r OfflineCache \<Rightarrow> 'r OfflineCache" where
  "handleOnline s =
     OfflineCache_flush
       (s\<lparr>isOnline := True,
          oc_console := oc_console s @ [''[OfflineCache] Network restored, flushing cache...'']\<rparr>)"

definition handleOffline :: "'r OfflineCache \<Rightarrow> 'r OfflineCache" where
  "handleOffline s =
     s\<lparr>isOnline := False,
       oc_console := oc_console s @ [''[OfflineCache] Network disconnected, enabling offline cache'']\<rparr>"

definition OfflineCache_clear :: "'r OfflineCache \<Rightarrow> 'r OfflineCache" where
  "OfflineCache_clear s = saveToStorage (s\<lparr>cacheQueue := []\<rparr>)"

definition OfflineCache_size :: "'r OfflineCache \<Rightarrow> nat" where
  "OfflineCache_size s = length (cacheQueue s)"

definition OfflineCache_destroy :: "'r OfflineCache \<Rightarrow> 'r OfflineCache" where
  "OfflineCache_destroy s = saveToStorage s"

text \<open>
  Everything that can happen to a cache: its public methods, the two network events, and
  a suspended pass going on. The events of a list happen in any order the list gives:
  a pass may go on at once or after any number of other events.
\<close>

datatype 'r oc_event =
  OcCache 'r nat | OcSend 'r nat | OcOnline | OcOffline | OcFlush | OcClear | OcDestroy
  | OcResume nat

fun oc_step :: "'r oc_event \<Rightarrow> 'r OfflineCache \<Rightarrow> 'r OfflineCache" where
  "oc_step (OcCache report now) s = OfflineCache_cache report now s"
| "oc_step (OcSend report now) s = fst (OfflineCache_send report now s)"
| "oc_step OcOnline s = handleOnline s"
| "oc_step OcOffline s = handleOffline s"
| "oc_step OcFlush s = OfflineCache_flush s"
| "oc_step OcClear s = OfflineCache_clear s"
| "oc_step OcDestroy s = OfflineCache_destroy s"
| "oc_step (OcResume pass) s = flush_resumes pass s"

fun oc_run :: "'r oc_event list \<Rightarrow> 'r OfflineCache \<Rightarrow> 'r OfflineCache" where
  "oc_run [] s = s"
| "oc_run (e # es) s = oc_run es (oc_step e s)"

text \<open>The events in which a retry pass acts.\<close>

fun pass_event :: "'r oc_event \<Rightarrow> bool" where
  "pass_event OcOnline = True"
| "pass_event OcFlush = True"
| "pass_event (OcResume pass) = True"
| "pass_event _ = False"

text \<open>The cached reports the queue refers to, oldest first.\<close>

definition cached :: "'r OfflineCache \<Rightarrow> 'r CachedReport list" where
  "cached s = map (\<lambda>a. objs s ! a) (cacheQueue s)"

text \<open>
  Reading the log: the items pass \<open>pass\<close> has called the sender for, in order; how often
  it has called \<open>saveToStorage\<close>; all its entries; the number of failed attempts for an
  item and whether an attempt for it has succeeded, in any pass. A pass is pending
  while an activation of it is suspended.
\<close>

fun entry_pass :: "pass_entry \<Rightarrow> nat" where
  "entry_pass (Attempt pass a) = pass"
| "entry_pass (Settle pass a ok) = pass"
| "entry_pass (Persist pass) = pass"

definition entries_by :: "nat \<Rightarrow> pass_entry list \<Rightarrow> pass_entry list" where
  "entries_by pass es = filter (\<lambda>e. entry_pass e = pass) es"

fun attempts_by :: "nat \<Rightarrow> pass_entry list \<Rightarrow> addr list" where
  "attempts_by pass [] = []"
| "attempts_by pass (Attempt p a # es) =
     (if p = pass then a # attempts_by pass es else attempts_by pass es)"
| "attempts_by pass (e # es) = attempts_by pass es"

definition persists_by :: "nat \<Rightarrow> pass_entry list \<Rightarrow> nat" where
  "persists_by pass es = length (filter (\<lambda>e. e = Persist pass) es)"

fun is_failure :: "addr \<Rightarrow> pass_entry \<Rightarrow> bool" where
  "is_failure a (Settle pass b ok) = (b = a \<and> \<not> ok)"
| "is_failure a e = False"

fun is_success :: "addr \<Rightarrow> pass_entry \<Rightarrow> bool" where
  "is_success a (Settle pass b ok) = (b = a \<and> ok)"
| "is_success a e = False"

definition failures :: "addr \<Rightarrow> pass_entry list \<Rightarrow> nat" where
  "failures a es = length (filter (is_failure a) es)"

definition delivered :: "addr \<Rightarrow> pass_entry list \<Rightarrow> bool" where
  "delivered a es \<longleftrightarrow> list_ex (is_success a) es"

definition pending :: "nat \<Rightarrow> 'r OfflineCache \<Rightarrow> bool" where
  "pending pass s \<longleftrightarrow> pass \<in> fp_id ` set (passes s)"


text \<open>Well-formed queues: distinct references to objects of the store.\<close>

definition oc_wf :: "'r OfflineCache \<Rightarrow> bool" where
  "oc_wf s \<longleftrightarrow> distinct (cacheQueue s) \<and> (\<forall>a \<in> set (cacheQueue s). a < length (objs s))"

text \<open>
  Well-formed passes: the suspended passes have distinct numbers, each below the count
  of passes started, as has every entry of the log; what a pass still holds of its
  copy of the queue are distinct references to objects of the store.
\<close>

definition passes_wf :: "'r OfflineCache \<Rightarrow> bool" where
  "passes_wf s \<longleftrightarrow>
     distinct (map fp_id (passes s)) \<and>
     (\<forall>p \<in> set (passes s).
        fp_id p < passes_started s \<and> distinct (fp_awaited p # fp_rest p) \<and>
        (\<forall>a \<in> set (fp_awaited p # fp_rest p). a < length (objs s))) \<and>
     (\<forall>e \<in> set (pass_log s). entry_pass e < passes_started s)"


subsection \<open>Following the passes\<close>

text \<open>
  Notions used to state and to prove what the passes do; none of them is part of the
  code.
\<close>

text \<open>
  What the actions of one pass on the items \<open>its\<close>, logged as \<open>new\<close>, do to a cache.
\<close>

definition pass_acts ::
  "nat \<Rightarrow> addr list \<Rightarrow> pass_entry list \<Rightarrow> 'r OfflineCache \<Rightarrow> 'r OfflineCache \<Rightarrow> bool" where
  "pass_acts pass its new s t \<longleftrightarrow>
     pass_log t = pass_log s @ new \<and>
     (\<forall>e \<in> set new. entry_pass e = pass) \<and>
     (\<forall>a. a \<notin> set its \<longrightarrow> failures a new = 0 \<and> \<not> delivered a new) \<and>
     oc_config t = oc_config s \<and> isOnline t = isOnline s \<and> oc_sender t = oc_sender s \<and>
     passes_started t = passes_started s \<and>
     length (objs t) = length (objs s) \<and>
     (\<forall>a < length (objs s).
        objs t ! a = (objs s ! a)\<lparr>retryCount := retryCount (objs s ! a) + failures a new\<rparr>) \<and>
     cacheQueue t =
       filter (\<lambda>a. \<not> delivered a new \<and> \<not> (0 < failures a new \<and> 3 < retryCount (objs t ! a)))
         (cacheQueue s)"

text \<open>How a pass that goes on in state \<open>s\<close> with the items \<open>rest\<close> leaves the cache.\<close>

definition pass_goes_on ::
  "nat \<Rightarrow> addr list \<Rightarrow> pass_entry list \<Rightarrow> 'r OfflineCache \<Rightarrow> 'r OfflineCache \<Rightarrow> bool" where
  "pass_goes_on pass rest new s t \<longleftrightarrow>
     oc_sent t = oc_sent s @ map (\<lambda>a. c_report (objs s ! a)) (attempts_by pass new) \<and>
     ((\<exists>p pre. passes t = passes s @ [p] \<and> fp_id p = pass \<and> rest = pre @ fp_rest p \<and>
          pre \<noteq> [] \<and> last pre = fp_awaited p \<and> attempts_by pass new = pre \<and>
          persists_by pass new = 0 \<and> oc_writes t = oc_writes s \<and>
          localStorage t = localStorage s) \<or>
      (passes t = passes s \<and> attempts_by pass new = rest \<and> persists_by pass new = 1 \<and>
       new \<noteq> [] \<and> last new = Persist pass \<and>
       oc_writes t =
         (case localStorage s of
            None \<Rightarrow> oc_writes s
          | Some ls \<Rightarrow> if setItem_throws ls then oc_writes s
                       else oc_writes s @ [(storageKey (oc_config s), cached t)])))"

text \<open>
  Following one pass: while it is suspended, the items it has attempted and the items it
  still holds make up its copy of the queue, the last attempt being the one it awaits,
  and it has not saved; once it is over, it has attempted the whole copy, in order, and
  its one call of \<open>saveToStorage\<close> was its last action.
\<close>

definition pass_tracks :: "nat \<Rightarrow> addr list \<Rightarrow> 'r OfflineCache \<Rightarrow> bool" where
  "pass_tracks pass copy t \<longleftrightarrow>
     (case find (\<lambda>p. fp_id p = pass) (passes t) of
        Some p \<Rightarrow>
          copy = attempts_by pass (pass_log t) @ fp_rest p \<and>
          attempts_by pass (pass_log t) \<noteq> [] \<and>
          last (attempts_by pass (pass_log t)) = fp_awaited p \<and>
          persists_by pass (pass_log t) = 0
      | None \<Rightarrow>
          attempts_by pass (pass_log t) = copy \<and> persists_by pass (pass_log t) = 1 \<and>
          entries_by pass (pass_log t) \<noteq> [] \<and>
          last (entries_by pass (pass_log t)) = Persist pass)"

text \<open>The number of attempts a pass has yet to see settled.\<close>

definition to_go :: "nat \<Rightarrow> 'r OfflineCache \<Rightarrow> nat" where
  "to_go pass s =
     (case find (\<lambda>p. fp_id p = pass) (passes s) of None \<Rightarrow> 0 | Some p \<Rightarrow> Suc (length (fp_rest p)))"

text \<open>
  An object that is no longer queued, seen from the passes numbered \<open>N\<close> and above:
  none of them has attempted it and none holds it.
\<close>

definition gone :: "addr \<Rightarrow> nat \<Rightarrow> 'r OfflineCache \<Rightarrow> bool" where
  "gone a N s \<longleftrightarrow>
     a < length (objs s) \<and> a \<notin> set (cacheQueue s) \<and> N \<le> passes_started s \<and>
     (\<forall>pass \<ge> N. a \<notin> set (attempts_by pass (pass_log s))) \<and>
     (\<forall>p \<in> set (passes s). N \<le> fp_id p \<longrightarrow> a \<notin> set (fp_awaited p # fp_rest p))"


subsection \<open>Concrete caches\<close>

text \<open>A sender that fails at every call, and the default configuration.\<close>

definition failing_sender :: "nat \<Rightarrow> string \<Rightarrow> sender_result" where
  "failing_sender n report = Throws (HostError ''network'')"

definition default_cache_config :: OfflineCacheConfig_partial where
  "default_cache_config = \<lparr>p_maxCacheSize = None, p_oc_enabled = None, p_storageKey = None\<rparr>"

definition empty_storage :: "string localStorage" where
  "empty_storage = \<lparr>items = (\<lambda>k. None), setItem_throws = False\<rparr>"


text \<open>An offline cache, newly constructed over an empty storage.\<close>

definition fresh_offline :: "string OfflineCache" where
  "fresh_offline =
     OfflineCache_new default_cache_config failing_sender (Some False) (Some empty_storage)"

text \<open>
  A storage left behind by an earlier page that cached three reports, and a cache now
  constructed over it with \<open>maxCacheSize = 2\<close>.
\<close>

definition three_stored :: "string localStorage" where
  "three_stored =
     \<lparr>items = (\<lambda>k. if k = ''error_monitor_cache''
                    then Some (Items [\<lparr>c_report = ''A'', c_timestamp = 1, retryCount = 0\<rparr>,
                                      \<lparr>c_report = ''B'', c_timestamp = 2, retryCount = 0\<rparr>,
                                      \<lparr>c_report = ''C'', c_timestamp = 3, retryCount = 0\<rparr>])
                    else None),
      setItem_throws = False\<rparr>"

definition recovered :: "string OfflineCache" where
  "recovered =
     OfflineCache_new \<lparr>p_maxCacheSize = Some 2, p_oc_enabled = None, p_storageKey = None\<rparr>
       failing_sender (Some False) (Some three_stored)"

text \<open>
  Two reports cached offline, of which the sender delivers \<open>X\<close> while its promise for
  \<open>Y\<close> rejects.
\<close>

definition two_cached :: "string OfflineCache" where
  "two_cached =
     oc_run [OcSend ''X'' 1, OcSend ''Y'' 2]
       (OfflineCache_new default_cache_config
          (\<lambda>n r. if r = ''X'' then Returns else Rejects (HostError ''network''))
          (Some False) (Some empty_storage))"


text \<open>
  A storage holding \<open>W\<close> and \<open>X\<close>, \<open>X\<close> with three failed retries, which may refuse
  writes; over it a cache whose sender delivers \<open>W\<close> while its promise for \<open>X\<close> rejects.
\<close>

definition stored_W_X :: "bool \<Rightarrow> string localStorage" where
  "stored_W_X refuses =
     \<lparr>items = (\<lambda>k. if k = ''error_monitor_cache''
                    then Some (Items [\<lparr>c_report = ''W'', c_timestamp = 1, retryCount = 0\<rparr>,
                                      \<lparr>c_report = ''X'', c_timestamp = 2, retryCount = 3\<rparr>])
                    else None),
      setItem_throws = refuses\<rparr>"

definition over_W_X :: "bool \<Rightarrow> string OfflineCache" where
  "over_W_X refuses =
     OfflineCache_new default_cache_config
       (\<lambda>n r. if r = ''W'' then Returns else Rejects (HostError ''network''))
       (Some True) (Some (stored_W_X refuses))"

section \<open>ErrorMonitor\<close>

subsection \<open>Data\<close>

text \<open>
  \<open>Record<string, any>\<close> is a map from property names to values, values taken as
  strings; \<open>{...a, ...b}\<close> is \<open>a ++ b\<close>. A property of an argument object that
  may be left out, be \<open>undefined\<close>, or hold a value:
\<close>

type_synonym js_record = "string \<rightharpoonup> string"

datatype 'a optional = Absent | Undefined | Present 'a

record ErrorType =
  e_type :: string
  e_message :: string
  e_stack :: "string option"
  e_context :: "js_record option"

text \<open>The argument of \<open>capture\<close>: an \<open>ErrorType\<close> or an \<open>Error\<close> (message and stack).\<close>

datatype raw_event = RawErrorType ErrorType | RawError string "string option"

record Breadcrumb =
  b_timestamp :: nat
  b_type :: string
  b_message :: string
  b_data :: "js_record option"

record ReportContext =
  rc_userAgent :: string
  rc_url :: string
  rc_viewport :: "int \<times> int"
  rc_userId :: "string option"
  rc_tags :: js_record

record ErrorReport =
  r_appId :: string
  r_timestamp :: nat
  r_sessionId :: string
  r_eventId :: string
  r_type :: string
  r_level :: "string option"
  r_message :: string
  r_stack :: "string option"
  r_context :: ReportContext
  r_breadcrumbs :: "Breadcrumb list"
  r_extra :: "js_record option"

text \<open>
  An object of type \<open>ErrorReport\<close> as a hook creates it: its optional properties
  \<open>stack\<close> and \<open>extra\<close> may be missing, be there with the value \<open>undefined\<close>, or hold
  a value.
\<close>

record ErrorReport_props =
  q_appId :: string
  q_timestamp :: nat
  q_sessionId :: string
  q_eventId :: string
  q_type :: string
  q_level :: "string option"
  q_message :: string
  q_stack :: "string optional"
  q_context :: ReportContext
  q_breadcrumbs :: "Breadcrumb list"
  q_extra :: "js_record optional"

record User =
  u_id :: "string option"

record CaptureOptions =
  o_level :: "string optional"
  o_tags :: "js_record option"
  o_extra :: "js_record option"
  o_user :: "User optional"
  o_skipSampling :: "bool option"
  o_skipFilter :: "bool option"

text \<open>
  What is handed to the custom reporter or the network: one report, or \<open>{ reports }\<close>.
\<close>

datatype payload = Single ErrorReport | Batch "ErrorReport list"

text \<open>A \<open>RegExp\<close> is what its \<open>test\<close> answers (patterns without the \<open>g\<close> or \<open>y\<close> flag).\<close>

type_synonym regexp = "string \<Rightarrow> bool"

record FilterConfig =
  ignoreErrors :: "regexp list option"
  ignoreUrls :: "regexp list option"
  minLevel :: "string option"

record ReportConfig =
  rp_delay :: "int option"
  rp_batchSize :: "int option"
  customReporter :: "(nat \<Rightarrow> payload \<Rightarrow> sender_result) option"

record Config =
  appId :: string
  dsn :: string
  userId :: "string option"
  tags :: "js_record option"
  errorSampleRate :: "real option"
  filter_cfg :: "FilterConfig option"
  report_cfg :: "ReportConfig option"
  enabled :: "bool option"
  debug :: "bool option"

text \<open>The constructor's argument: the keys that have a default may be left out.\<close>

record Config_arg =
  a_appId :: string
  a_dsn :: string
  a_userId :: "string option"
  a_tags :: "js_record option"
  a_errorSampleRate :: "real optional"
  a_filter :: "FilterConfig optional"
  a_report :: "ReportConfig optional"
  a_enabled :: "bool optional"
  a_debug :: "bool optional"

text \<open>
  A plugin hook is a function of the host. Called with an object, it may change the
  object in place, and it throws or returns: \<open>null\<close> (\<open>beforeCapture\<close> only, whose
  return type alone has it), \<open>undefined\<close>, the very object it was given, or another
  object. The model of a hook maps the value of its argument to the value the argument
  has afterwards and to what the call returns.
\<close>

datatype 'a hook_return =
  HookThrows js_error | HookNull | HookUndefined | HookSame | HookFresh 'a

datatype 'a merge_return =
  MergeThrows js_error | MergeUndefined | MergeSame | MergeFresh 'a

record Plugin =
  p_name :: string
  beforeCapture :: "(ErrorType \<Rightarrow> ErrorType \<times> ErrorType hook_return) option"
  afterCapture :: "(ErrorReport \<Rightarrow> ErrorReport \<times> ErrorReport_props merge_return) option"
  beforeReport :: "(ErrorReport \<Rightarrow> ErrorReport \<times> ErrorReport merge_return) option"

text \<open>
  The browser: \<open>navigator\<close> (with its \<open>userAgent\<close> and, if there, \<open>sendBeacon\<close>),
  \<open>location\<close>, \<open>window\<close> and \<open>fetch\<close>. A primitive is given by what its \<open>n\<close>-th
  call does.
\<close>

record Browser =
  navigator :: "string option"
  sendBeacon :: "(nat \<Rightarrow> payload \<Rightarrow> sender_result) option"
  fetch :: "(nat \<Rightarrow> payload \<Rightarrow> sender_result) option"
  location_href :: "string option"
  window :: "(int \<times> int) option"

text \<open>What one call of \<open>capture\<close> reads from the clock and the random generator.\<close>

record capture_io =
  io_now :: nat
  io_random :: real
  io_eventId :: string

text \<open>
  The monitor. \<open>hook_calls\<close> and \<open>reported\<close> record, oldest first, the calls of
  \<open>beforeCapture\<close> hooks (plugin name and argument) and the arguments of \<open>report\<close>;
  \<open>direct_sent\<close> the reports handed to \<open>sendToServerDirectly\<close> without a cache.
\<close>

record ErrorMonitor =
  config :: Config
  isInitialized :: bool
  crumb_heap :: "Breadcrumb heap"
  breadcrumbs :: RingBuffer
  plugins :: "Plugin list"
  sessionId :: string
  logger_level :: nat
  m_console :: "string list"
  batchQueue :: "ErrorReport BatchQueue option"
  offlineCache :: "ErrorReport OfflineCache option"
  browser :: Browser
  hook_calls :: "(string \<times> ErrorType) list"
  reported :: "ErrorReport list"
  direct_sent :: "ErrorReport list"

subsection \<open>Logger\<close>

definition LogLevel_DEBUG :: nat where "LogLevel_DEBUG = 0"
definition LogLevel_INFO :: nat where "LogLevel_INFO = 1"
definition LogLevel_WARN :: nat where "LogLevel_WARN = 2"
definition LogLevel_ERROR :: nat where "LogLevel_ERROR = 3"
definition LogLevel_SILENT :: nat where "LogLevel_SILENT = 4"

definition Logger_new :: "bool \<Rightarrow> nat \<Rightarrow> nat" where
  "Logger_new on level = (if on then level else LogLevel_SILENT)"

definition logger_log :: "nat \<Rightarrow> string \<Rightarrow> ErrorMonitor \<Rightarrow> ErrorMonitor" where
  "logger_log level line m =
     (if logger_level m \<le> level then m\<lparr>m_console := m_console m @ [line]\<rparr> else m)"

subsection \<open>Transport\<close>

text \<open>
  \<open>sendToServerDirectly\<close> and \<open>sendBatchToServer\<close> return nothing: a promise returned by
  the custom reporter is dropped, a rejection of \<open>fetch\<close> is handled by its \<open>catch\<close>.
  Only a synchronous throw of the reporter or of a primitive leaves them.
\<close>

definition sendToServerDirectly :: "Config \<Rightarrow> Browser \<Rightarrow> nat \<Rightarrow> ErrorReport \<Rightarrow> sender_result" where
  "sendToServerDirectly cfg br n data =
     (case (case report_cfg cfg of None \<Rightarrow> None | Some rp \<Rightarrow> customReporter rp) of
        Some reporter \<Rightarrow>
          (case reporter n (Single data) of Throws e \<Rightarrow> Throws e | _ \<Rightarrow> Returns)
      | None \<Rightarrow>
          if navigator br = None then Returns
          else case sendBeacon br of
                 Some beacon \<Rightarrow>
                   (case beacon n (Single data) of Throws e \<Rightarrow> Throws e | _ \<Rightarrow> Returns)
               | None \<Rightarrow>
                   (case fetch br of
                      Some f \<Rightarrow> (case f n (Single data) of Throws e \<Rightarrow> Throws e | _ \<Rightarrow> Returns)
                    | None \<Rightarrow> Returns))"

definition sendBatchToServer :: "Config \<Rightarrow> Browser \<Rightarrow> nat \<Rightarrow> ErrorReport list \<Rightarrow> sender_result" where
  "sendBatchToServer cfg br n reports =
     (case (case report_cfg cfg of None \<Rightarrow> None | Some rp \<Rightarrow> customReporter rp) of
        Some reporter \<Rightarrow>
          (case reporter n (Batch reports) of Throws e \<Rightarrow> Throws e | _ \<Rightarrow> Returns)
      | None \<Rightarrow>
          if navigator br = None then Returns
          else case sendBeacon br of
                 Some beacon \<Rightarrow>
                   (case beacon n (Batch reports) of Throws e \<Rightarrow> Throws e | _ \<Rightarrow> Returns)
               | None \<Rightarrow>
                   (case fetch br of
                      Some f \<Rightarrow> (case f n (Batch reports) of Throws e \<Rightarrow> Throws e | _ \<Rightarrow> Returns)
                    | None \<Rightarrow> Returns))"

subsection \<open>Construction\<close>

definition default_of :: "'a \<Rightarrow> 'a optional \<Rightarrow> 'a option" where
  "default_of d x = (case x of Absent \<Rightarrow> Some d | Undefined \<Rightarrow> None | Present v \<Rightarrow> Some v)"

definition or_default :: "int option \<Rightarrow> int \<Rightarrow> int" where
  "or_default x d = (case x of None \<Rightarrow> d | Some v \<Rightarrow> if v = 0 then d else v)"

definition BREADCRUMBS_MAX_SIZE :: nat where "BREADCRUMBS_MAX_SIZE = 50"
definition REPORTING_DEFAULT_DELAY :: int where "REPORTING_DEFAULT_DELAY = 1000"
definition REPORTING_DEFAULT_BATCH_SIZE :: int where "REPORTING_DEFAULT_BATCH_SIZE = 10"
definition SAMPLING_DEFAULT_RATE :: real where "SAMPLING_DEFAULT_RATE = 1"

definition merged_config :: "Config_arg \<Rightarrow> Config" where
  "merged_config arg =
     \<lparr>appId = a_appId arg,
      dsn = a_dsn arg,
      userId = a_userId arg,
      tags = a_tags arg,
      errorSampleRate = default_of SAMPLING_DEFAULT_RATE (a_errorSampleRate arg),
      filter_cfg = default_of \<lparr>ignoreErrors = Some [], ignoreUrls = Some [], minLevel = Some ''info''\<rparr>
                     (a_filter arg),
      report_cfg = default_of \<lparr>rp_delay = Some REPORTING_DEFAULT_DELAY,
                                rp_batchSize = Some REPORTING_DEFAULT_BATCH_SIZE,
                                customReporter = None\<rparr> (a_report arg),
      enabled = default_of True (a_enabled arg),
      debug = default_of False (a_debug arg)\<rparr>"

text \<open>
  The constructor, given the browser, the session identifier drawn, \<open>navigator.onLine\<close>,
  \<open>localStorage\<close> and the identifier of the next timer. The senders handed to the
  queue and to the cache are closures over the monitor: they read its configuration when
  they run, so the model sets them anew before each use (\<open>the_batchQueue\<close>,
  \<open>the_offlineCache\<close>).
\<close>

definition ErrorMonitor_new ::
  "Config_arg \<Rightarrow> Browser \<Rightarrow> string \<Rightarrow> bool \<Rightarrow> ErrorReport localStorage option \<Rightarrow> nat \<Rightarrow> ErrorMonitor" where
  "ErrorMonitor_new arg br session onLine storage first_timer =
     (let cfg = merged_config arg;
          (h, ring) = RingBuffer_new [] BREADCRUMBS_MAX_SIZE
      in \<lparr>config = cfg,
          isInitialized = False,
          crumb_heap = h,
          breadcrumbs = ring,
          plugins = [],
          sessionId = session,
          logger_level = Logger_new (enabled cfg \<noteq> Some False)
                           (if debug cfg = Some True then LogLevel_DEBUG else LogLevel_INFO),
          m_console = [],
          batchQueue =
            (case report_cfg cfg of
               None \<Rightarrow> None
             | Some rp \<Rightarrow>
                 Some (BatchQueue_new
                         \<lparr>p_batchSize = Some (or_default (rp_batchSize rp) REPORTING_DEFAULT_BATCH_SIZE),
                          p_delay = Some (or_default (rp_delay rp) REPORTING_DEFAULT_DELAY),
                          p_enabled = Some True\<rparr>
                         (sendBatchToServer cfg br) (window br \<noteq> None) first_timer)),
          offlineCache =
            Some (OfflineCache_new
                    \<lparr>p_maxCacheSize = Some 100, p_oc_enabled = Some True,
                     p_storageKey = Some (''error_monitor_cache_'' @ appId cfg)\<rparr>
                    (sendToServerDirectly cfg br)
                    (if navigator br = None then None else Some onLine) storage),
          browser = br,
          hook_calls = [],
          reported = [],
          direct_sent = []\<rparr>)"

definition the_batchQueue :: "ErrorMonitor \<Rightarrow> ErrorReport BatchQueue option" where
  "the_batchQueue m =
     (case batchQueue m of None \<Rightarrow> None
      | Some q \<Rightarrow> Some (q\<lparr>bq_sender := sendBatchToServer (config m) (browser m)\<rparr>))"

definition the_offlineCache :: "ErrorMonitor \<Rightarrow> ErrorReport OfflineCache option" where
  "the_offlineCache m =
     (case offlineCache m of None \<Rightarrow> None
      | Some c \<Rightarrow> Some (c\<lparr>oc_sender := sendToServerDirectly (config m) (browser m)\<rparr>))"

text \<open>\<open>init\<close> and \<open>use\<close>; the \<open>setup\<close> hooks they call are left out.\<close>

definition ErrorMonitor_init :: "ErrorMonitor \<Rightarrow> ErrorMonitor" where
  "ErrorMonitor_init m =
     (if isInitialized m then logger_log LogLevel_WARN ''Already initialized'' m
      else logger_log LogLevel_INFO ''Initialized with appId:'' (m\<lparr>isInitialized := True\<rparr>))"

definition ErrorMonitor_use :: "Plugin \<Rightarrow> ErrorMonitor \<Rightarrow> ErrorMonitor" where
  "ErrorMonitor_use plugin m = m\<lparr>plugins := plugins m @ [plugin]\<rparr>"

definition ErrorMonitor_addBreadcrumb :: "Breadcrumb \<Rightarrow> nat \<Rightarrow> ErrorMonitor \<Rightarrow> ErrorMonitor" where
  "ErrorMonitor_addBreadcrumb crumb now m =
     (let (h, ring) = RingBuffer_push
                        (crumb\<lparr>b_timestamp := (if b_timestamp crumb = 0 then now else b_timestamp crumb)\<rparr>)
                        (crumb_heap m, breadcrumbs m)
      in m\<lparr>crumb_heap := h, breadcrumbs := ring\<rparr>)"

subsection \<open>Reporting\<close>

definition sendToServer :: "ErrorReport \<Rightarrow> nat \<Rightarrow> ErrorMonitor \<Rightarrow> ErrorMonitor outcome" where
  "sendToServer data now m =
     (case the_offlineCache m of
        Some c \<Rightarrow>
          (let (c1, e) = OfflineCache_send data now c in (m\<lparr>offlineCache := Some c1\<rparr>, e))
      | None \<Rightarrow>
          (let result = sendToServerDirectly (config m) (browser m) (length (direct_sent m)) data;
               m1 = m\<lparr>direct_sent := direct_sent m @ [data]\<rparr>
           in (m1, case result of Throws e \<Rightarrow> Some e | _ \<Rightarrow> None)))"

text \<open>
  The loop of \<open>report\<close> over the plugins. Every \<open>beforeReport\<close> hook is called with
  \<open>data\<close>; \<open>processedReport\<close> is the last result that was not \<open>undefined\<close>. It is
  \<open>None\<close> while it is the object \<open>data\<close> itself and \<open>Some v\<close> once it is another object.
\<close>


fun beforeReport_hooks ::
  "Plugin list \<Rightarrow> ErrorReport \<Rightarrow> ErrorReport option \<Rightarrow> js_error + ErrorReport" where
  "beforeReport_hooks [] data processedReport =
     Inr (case processedReport of None \<Rightarrow> data | Some v \<Rightarrow> v)"
| "beforeReport_hooks (plugin # rest) data processedReport =
     (case beforeReport plugin of
        None \<Rightarrow> beforeReport_hooks rest data processedReport
      | Some hook \<Rightarrow>
          (let (data1, result) = hook data
           in case result of
                MergeThrows e \<Rightarrow> Inl e
              | MergeUndefined \<Rightarrow> beforeReport_hooks rest data1 processedReport
              | MergeSame \<Rightarrow> beforeReport_hooks rest data1 None
              | MergeFresh v \<Rightarrow> beforeReport_hooks rest data1 (Some v)))"

definition ErrorMonitor_report :: "ErrorReport \<Rightarrow> nat \<Rightarrow> ErrorMonitor \<Rightarrow> ErrorMonitor outcome" where
  "ErrorMonitor_report data now m =
     (let m1 = m\<lparr>reported := reported m @ [data]\<rparr>
      in case beforeReport_hooks (plugins m1) data None of
           Inl e \<Rightarrow> (m1, Some e)
         | Inr processedReport \<Rightarrow>
             (case the_batchQueue m1 of
                Some q \<Rightarrow>
                  (let (q1, e) = BatchQueue_add processedReport now q
                   in (m1\<lparr>batchQueue := Some q1\<rparr>, e))
              | None \<Rightarrow> sendToServer processedReport now m1))"

text \<open>The delayed flush of the monitor's queue coming due.\<close>

definition ErrorMonitor_timer_fires :: "nat \<Rightarrow> ErrorMonitor \<Rightarrow> ErrorMonitor outcome" where
  "ErrorMonitor_timer_fires t m =
     (case the_batchQueue m of
        None \<Rightarrow> (m, None)
      | Some q \<Rightarrow> (let (q1, e) = timer_fires t q in (m\<lparr>batchQueue := Some q1\<rparr>, e)))"

subsection \<open>Capture\<close>

definition shouldFilter :: "ErrorMonitor \<Rightarrow> ErrorType \<Rightarrow> bool" where
  "shouldFilter m error =
     (case filter_cfg (config m) of
        None \<Rightarrow> False
      | Some f \<Rightarrow>
          (let ignoreErrors = ignoreErrors f; ignoreUrls = ignoreUrls f; minLevel = minLevel f
           in if (case ignoreErrors of None \<Rightarrow> False
                  | Some patterns \<Rightarrow> length patterns > 0 \<and>
                      list_ex (\<lambda>pattern. pattern (e_message error)) patterns)
              then True
              else
                (case ignoreUrls of
                   None \<Rightarrow> False
                 | Some patterns \<Rightarrow>
                     length patterns > 0 \<and>
                     (case (case e_context error of None \<Rightarrow> None | Some c \<Rightarrow> c ''url'') of
                        None \<Rightarrow> False
                      | Some url \<Rightarrow> url \<noteq> [] \<and> list_ex (\<lambda>pattern. pattern url) patterns))))"

text \<open>
  The loop of \<open>capture\<close> over the plugins. Every \<open>beforeCapture\<close> hook is called with
  \<open>normalizedError\<close>; \<open>processedError\<close> is the last result that was not \<open>undefined\<close>
  (\<open>None\<close> while it is the object \<open>normalizedError\<close> itself); \<open>null\<close> ends the capture.
\<close>

datatype hooks_result = HooksRaise js_error | HooksVeto | HooksDone ErrorType

fun beforeCapture_hooks ::
  "Plugin list \<Rightarrow> ErrorType \<Rightarrow> ErrorType option \<Rightarrow> ErrorMonitor \<Rightarrow> ErrorMonitor \<times> hooks_result" where
  "beforeCapture_hooks [] normalizedError processedError m =
     (m, HooksDone (case processedError of None \<Rightarrow> normalizedError | Some v \<Rightarrow> v))"
| "beforeCapture_hooks (plugin # rest) normalizedError processedError m =
     (case beforeCapture plugin of
        None \<Rightarrow> beforeCapture_hooks rest normalizedError processedError m
      | Some hook \<Rightarrow>
          (let m1 = m\<lparr>hook_calls := hook_calls m @ [(p_name plugin, normalizedError)]\<rparr>;
               (normalizedError1, result) = hook normalizedError
           in case result of
                HookThrows e \<Rightarrow> (m1, HooksRaise e)
              | HookNull \<Rightarrow> (m1, HooksVeto)
              | HookUndefined \<Rightarrow> beforeCapture_hooks rest normalizedError1 processedError m1
              | HookSame \<Rightarrow> beforeCapture_hooks rest normalizedError1 None m1
              | HookFresh v \<Rightarrow> beforeCapture_hooks rest normalizedError1 (Some v) m1))"

text \<open>
  \<open>Object.assign(report, result)\<close>: every property that \<open>result\<close> has is copied to
  \<open>report\<close>, also one whose value is \<open>undefined\<close>; a property that \<open>result\<close> lacks
  keeps the value it has in \<open>report\<close>.
\<close>

definition Object_assign :: "ErrorReport \<Rightarrow> ErrorReport_props \<Rightarrow> ErrorReport" where
  "Object_assign report result =
     \<lparr>r_appId = q_appId result,
      r_timestamp = q_timestamp result,
      r_sessionId = q_sessionId result,
      r_eventId = q_eventId result,
      r_type = q_type result,
      r_level = q_level result,
      r_message = q_message result,
      r_stack = (case q_stack result of
                   Absent \<Rightarrow> r_stack report | Undefined \<Rightarrow> None | Present v \<Rightarrow> Some v),
      r_context = q_context result,
      r_breadcrumbs = q_breadcrumbs result,
      r_extra = (case q_extra result of
                   Absent \<Rightarrow> r_extra report | Undefined \<Rightarrow> None | Present v \<Rightarrow> Some v)\<rparr>"

fun afterCapture_hooks :: "Plugin list \<Rightarrow> ErrorReport \<Rightarrow> js_error + ErrorReport" where
  "afterCapture_hooks [] report = Inr report"
| "afterCapture_hooks (plugin # rest) report =
     (case afterCapture plugin of
        None \<Rightarrow> afterCapture_hooks rest report
      | Some hook \<Rightarrow>
          (let (report1, result) = hook report
           in case result of
                MergeThrows e \<Rightarrow> Inl e
              | MergeUndefined \<Rightarrow> afterCapture_hooks rest report1
              | MergeSame \<Rightarrow> afterCapture_hooks rest report1
              | MergeFresh v \<Rightarrow> afterCapture_hooks rest (Object_assign report1 v)))"

text \<open>The values of a dense array.\<close>

definition array_values :: "'a js_array \<Rightarrow> 'a list" where
  "array_values a = List.map_filter (\<lambda>x. x) (array_items a)"

text \<open>
  \<open>opts\<close> is \<open>options\<close> laid over the defaults, property by property: a \<open>level\<close> or
  \<open>user\<close> given as \<open>undefined\<close> replaces the default.
\<close>

record Opts =
  opts_level :: "string option"
  opts_tags :: js_record
  opts_extra :: js_record
  opts_user :: "User option"
  opts_skipSampling :: bool
  opts_skipFilter :: bool

definition apply_options :: "CaptureOptions option \<Rightarrow> Opts" where
  "apply_options options =
     (case options of
        None \<Rightarrow>
          \<lparr>opts_level = Some ''error'', opts_tags = Map.empty, opts_extra = Map.empty,
           opts_user = Some \<lparr>u_id = None\<rparr>, opts_skipSampling = False, opts_skipFilter = False\<rparr>
      | Some opt \<Rightarrow>
          \<lparr>opts_level = default_of ''error'' (o_level opt),
           opts_tags = (case o_tags opt of None \<Rightarrow> Map.empty | Some t \<Rightarrow> t),
           opts_extra = (case o_extra opt of None \<Rightarrow> Map.empty | Some x \<Rightarrow> x),
           opts_user = default_of \<lparr>u_id = None\<rparr> (o_user opt),
           opts_skipSampling = (o_skipSampling opt = Some True),
           opts_skipFilter = (o_skipFilter opt = Some True)\<rparr>)"

definition normalize :: "raw_event \<Rightarrow> ErrorType" where
  "normalize error =
     (case error of
        RawError message stack \<Rightarrow>
          \<lparr>e_type = ''custom'', e_message = message, e_stack = stack, e_context = Some Map.empty\<rparr>
      | RawErrorType e \<Rightarrow> e)"

text \<open>The object literal that \<open>capture\<close> builds, given the snapshot of the breadcrumbs.\<close>

definition build_report ::
  "ErrorMonitor \<Rightarrow> capture_io \<Rightarrow> Opts \<Rightarrow> User \<Rightarrow> ErrorType \<Rightarrow> Breadcrumb list \<Rightarrow> ErrorReport" where
  "build_report m io opts user processedError snapshot =
     \<lparr>r_appId = appId (config m),
      r_timestamp = io_now io,
      r_sessionId = sessionId m,
      r_eventId = io_eventId io,
      r_type = e_type processedError,
      r_level = opts_level opts,
      r_message = e_message processedError,
      r_stack = e_stack processedError,
      r_context =
        \<lparr>rc_userAgent = (case navigator (browser m) of None \<Rightarrow> [] | Some ua \<Rightarrow> ua),
         rc_url = (case location_href (browser m) of None \<Rightarrow> [] | Some u \<Rightarrow> u),
         rc_viewport = (case window (browser m) of None \<Rightarrow> (0, 0) | Some v \<Rightarrow> v),
         rc_userId =
           (case u_id user of
              None \<Rightarrow> userId (config m)
            | Some i \<Rightarrow> if i = [] then userId (config m) else Some i),
         rc_tags = (case tags (config m) of None \<Rightarrow> Map.empty | Some t \<Rightarrow> t) ++ opts_tags opts\<rparr>,
      r_breadcrumbs = snapshot,
      r_extra =
        Some ((case e_context processedError of None \<Rightarrow> Map.empty | Some c \<Rightarrow> c) ++
              opts_extra opts)\<rparr>"

text \<open>
  \<open>capture\<close>. Reading \<open>opts.user.id\<close> throws when \<open>user\<close> was given as \<open>undefined\<close>;
  the snapshot of the breadcrumbs is taken after that.
\<close>

definition ErrorMonitor_capture ::
  "raw_event \<Rightarrow> CaptureOptions option \<Rightarrow> capture_io \<Rightarrow> ErrorMonitor \<Rightarrow> ErrorMonitor outcome" where
  "ErrorMonitor_capture error options io m =
     (if \<not> isInitialized m then (logger_log LogLevel_WARN ''Not initialized'' m, None)
      else if enabled (config m) = Some False then (m, None)
      else
        let normalizedError = normalize error;
            opts = apply_options options
        in if \<not> opts_skipFilter opts \<and> shouldFilter m normalizedError
           then (logger_log LogLevel_DEBUG ''Error filtered:'' m, None)
           else if \<not> opts_skipSampling opts \<and>
                   (case errorSampleRate (config m) of None \<Rightarrow> False
                    | Some rate \<Rightarrow> io_random io > rate)
           then (m, None)
           else
             (case beforeCapture_hooks (plugins m) normalizedError None m of
                (m1, HooksRaise e) \<Rightarrow> (m1, Some e)
              | (m1, HooksVeto) \<Rightarrow> (m1, None)
              | (m1, HooksDone processedError) \<Rightarrow>
                  (case opts_user opts of
                     None \<Rightarrow> (m1, Some (TypeError ''Cannot read properties of undefined (reading id)''))
                   | Some user \<Rightarrow>
                       (let (h, snapshot) = RingBuffer_toArray (crumb_heap m1, breadcrumbs m1);
                            m2 = m1\<lparr>crumb_heap := h\<rparr>;
                            report = build_report m2 io opts user processedError
                                       (array_values (h ! snapshot))
                        in case afterCapture_hooks (plugins m2) report of
                             Inl e \<Rightarrow> (m2, Some e)
                           | Inr report1 \<Rightarrow> ErrorMonitor_report report1 (io_now io) m2))))"

definition ErrorMonitor_captureError ::
  "string \<Rightarrow> string option \<Rightarrow> CaptureOptions option \<Rightarrow> capture_io \<Rightarrow> ErrorMonitor \<Rightarrow> ErrorMonitor outcome" where
  "ErrorMonitor_captureError message stack options io m =
     ErrorMonitor_capture (RawError message stack) options io m"

definition ErrorMonitor_captureMessage ::
  "string \<Rightarrow> string option \<Rightarrow> CaptureOptions option \<Rightarrow> capture_io \<Rightarrow> ErrorMonitor \<Rightarrow> ErrorMonitor outcome" where
  "ErrorMonitor_captureMessage message level options io m =
     ErrorMonitor_capture
       (RawErrorType \<lparr>e_type = ''custom'', e_message = message, e_stack = None,
                      e_context = Some Map.empty\<rparr>)
       (Some ((case options of
                 None \<Rightarrow> \<lparr>o_level = Absent, o_tags = None, o_extra = None, o_user = Absent,
                           o_skipSampling = None, o_skipFilter = None\<rparr>
               | Some opt \<Rightarrow> opt)
              \<lparr>o_level := Present (case level of None \<Rightarrow> ''info'' | Some l \<Rightarrow> l)\<rparr>))
       io m"

text \<open>The monitor with \<open>filter.minLevel\<close> set to \<open>l\<close> (where there is a \<open>filter\<close>).\<close>

definition with_minLevel :: "string option \<Rightarrow> ErrorMonitor \<Rightarrow> ErrorMonitor" where
  "with_minLevel l m =
     m\<lparr>config := (config m)\<lparr>filter_cfg :=
         (case filter_cfg (config m) of None \<Rightarrow> None | Some f \<Rightarrow> Some (f\<lparr>minLevel := l\<rparr>))\<rparr>\<rparr>"

subsection \<open>Concrete monitors\<close>

definition test_browser :: Browser where
  "test_browser =
     \<lparr>navigator = Some ''Mozilla/5.0'', sendBeacon = Some (\<lambda>n p. Returns), fetch = None,
      location_href = Some ''https://app.example/'', window = Some (1024, 768)\<rparr>"

definition test_arg :: Config_arg where
  "test_arg =
     \<lparr>a_appId = ''app'', a_dsn = ''https://collect.example/'', a_userId = None, a_tags = None,
      a_errorSampleRate = Absent, a_filter = Absent, a_report = Absent, a_enabled = Absent,
      a_debug = Absent\<rparr>"

text \<open>
  A plugin whose \<open>beforeCapture\<close> returns a copy of the event with \<open>suffix\<close> appended to
  the message (\<open>{...error, message: error.message + suffix}\<close>), and one whose
  \<open>beforeCapture\<close> throws.
\<close>

definition appending_plugin :: "string \<Rightarrow> string \<Rightarrow> Plugin" where
  "appending_plugin name suffix =
     \<lparr>p_name = name,
      beforeCapture = Some (\<lambda>e. (e, HookFresh (e\<lparr>e_message := e_message e @ suffix\<rparr>))),
      afterCapture = None, beforeReport = None\<rparr>"

definition throwing_plugin :: Plugin where
  "throwing_plugin =
     \<lparr>p_name = ''faulty'',
      beforeCapture = Some (\<lambda>e. (e, HookThrows (HostError ''hook failed''))),
      afterCapture = None, beforeReport = None\<rparr>"

text \<open>A monitor constructed from \<open>arg\<close> in the test browser, with the plugins registered in order, initialised.\<close>

definition test_monitor :: "Config_arg \<Rightarrow> Plugin list \<Rightarrow> ErrorMonitor" where
  "test_monitor arg ps =
     ErrorMonitor_init
       (fold ErrorMonitor_use ps (ErrorMonitor_new arg test_browser ''session'' True None 1))"

definition boom :: ErrorType where
  "boom = \<lparr>e_type = ''js'', e_message = ''boom'', e_stack = None, e_context = None\<rparr>"

definition test_io :: capture_io where
  "test_io = \<lparr>io_now = 100, io_random = 1 / 2, io_eventId = ''event-1''\<rparr>"

text \<open>A configuration whose custom reporter throws at every call, with batches of one.\<close>

definition throwing_reporter_arg :: Config_arg where
  "throwing_reporter_arg =
     test_arg\<lparr>a_report := Present \<lparr>rp_delay = None, rp_batchSize = Some 1,
        customReporter = Some (\<lambda>n p. Throws (HostError ''reporter failed''))\<rparr>\<rparr>"

text \<open>
  A browser whose \<open>navigator.sendBeacon\<close> throws at every call, and two monitors in it:
  one constructed with \<open>report: undefined\<close>, which has no batch queue, and one with
  batches of one.
\<close>

definition throwing_beacon_browser :: Browser where
  "throwing_beacon_browser =
     test_browser\<lparr>sendBeacon := Some (\<lambda>n p. Throws (HostError ''beacon failed''))\<rparr>"

definition direct_monitor :: ErrorMonitor where
  "direct_monitor =
     ErrorMonitor_init
       (ErrorMonitor_new (test_arg\<lparr>a_report := Undefined\<rparr>) throwing_beacon_browser
          ''session'' True None 1)"

definition batch_of_one_monitor :: ErrorMonitor where
  "batch_of_one_monitor =
     ErrorMonitor_init
       (ErrorMonitor_new
          (test_arg\<lparr>a_report := Present \<lparr>rp_delay = None, rp_batchSize = Some 1,
                                             customReporter = None\<rparr>\<rparr>)
          throwing_beacon_browser ''session'' True None 1)"

section \<open>Verification: RingBuffer\<close>

declare toArray_loop.simps [simp del]

lemma array_items_foldl_push:
  "array_items (foldl array_push a vs) = array_items a @ map Some vs"
  by (induction vs arbitrary: a) (simp_all add: array_items_def array_push_def)

lemma toArray_loop_eq:
  "result \<noteq> buffer rb \<Longrightarrow> result < length h \<Longrightarrow>
   toArray_loop h rb result i =
     h[result := foldl array_push (h ! result)
        (List.map_filter (\<lambda>j. elems (h ! buffer rb) (js_mod (js_plus (head rb) j) (capacity rb)))
           [i..<rb_size rb])]"
proof (induction h rb result i rule: toArray_loop.induct)
  case (1 h rb result i)
  show ?case
  proof (cases "i < rb_size rb")
    case False
    then show ?thesis
      by (simp add: toArray_loop.simps [of h rb result i] List.map_filter_simps)
  next
    case True
    then have up: "[i..<rb_size rb] = i # [Suc i..<rb_size rb]"
      by (simp add: upt_conv_Cons)
    note IH = "1.IH" [OF True refl refl]
    show ?thesis
    proof (cases "elems (h ! buffer rb) (js_mod (js_plus (head rb) i) (capacity rb))")
      case None
      with True IH "1.prems" up show ?thesis
        by (simp add: toArray_loop.simps [of h rb result i] List.map_filter_simps)
    next
      case (Some v)
      with True IH "1.prems" up show ?thesis
        by (simp add: toArray_loop.simps [of h rb result i] List.map_filter_simps)
    qed
  qed
qed

lemma mod_slot_distinct:
  fixes j n N :: nat
  assumes "j < n" "n < j + N"
  shows "j mod N \<noteq> n mod N"
proof
  assume "j mod N = n mod N"
  then have "N dvd n - j" using assms(1)
    by (metis mod_eq_dvd_iff_nat nless_le)
  moreover have "0 < n - j" "n - j < N" using assms by simp_all
  ultimately show False by (auto dest: dvd_imp_le)
qed

lemma push_step:
  "RingBuffer_push x (h, rb) =
     (h[buffer rb := array_set (h ! buffer rb) (tail rb) x],
      if rb_size rb < capacity rb
      then rb\<lparr>tail := js_mod (js_plus (tail rb) 1) (capacity rb), rb_size := rb_size rb + 1\<rparr>
      else rb\<lparr>tail := js_mod (js_plus (tail rb) 1) (capacity rb),
              head := js_mod (js_plus (head rb) 1) (capacity rb)\<rparr>)"
  by (simp add: RingBuffer_push_def Let_def)

lemma ring_inv:
  assumes N: "0 < N"
  shows "fold RingBuffer_push xs (RingBuffer_new h N) = (h', rb) \<Longrightarrow>
         length h' = Suc (length h) \<and>
         rb = \<lparr>buffer = length h, capacity = N, head = Some ((length xs - N) mod N),
               tail = Some (length xs mod N), rb_size = min (length xs) N\<rparr> \<and>
         (\<forall>j<length xs. length xs \<le> j + N \<longrightarrow>
             elems (h' ! length h) (Some (j mod N)) = Some (xs ! j))"
proof (induction xs arbitrary: h' rb rule: rev_induct)
  case Nil
  then show ?case by (auto simp: RingBuffer_new_def)
next
  case (snoc x xs)
  obtain h0 rb0 where s0: "fold RingBuffer_push xs (RingBuffer_new h N) = (h0, rb0)"
    by (cases "fold RingBuffer_push xs (RingBuffer_new h N)")
  note IH = snoc.IH [OF s0]
  let ?n = "length xs"
  from IH have len0: "length h0 = Suc (length h)"
    and rb0: "rb0 = \<lparr>buffer = length h, capacity = N, head = Some ((?n - N) mod N),
               tail = Some (?n mod N), rb_size = min ?n N\<rparr>"
    and el0: "\<And>j. j < ?n \<Longrightarrow> ?n \<le> j + N \<Longrightarrow> elems (h0 ! length h) (Some (j mod N)) = Some (xs ! j)"
    by auto
  from snoc.prems s0 have step: "RingBuffer_push x (h0, rb0) = (h', rb)" by simp
  from step have h': "h' = h0[length h := array_set (h0 ! length h) (Some (?n mod N)) x]"
    by (simp add: push_step rb0)
  have rb: "rb = \<lparr>buffer = length h, capacity = N, head = Some ((Suc ?n - N) mod N),
               tail = Some (Suc ?n mod N), rb_size = min (Suc ?n) N\<rparr>"
  proof (cases "?n < N")
    case True
    with step N show ?thesis
      by (auto simp: push_step rb0 js_mod_def js_plus_def mod_Suc)
  next
    case False
    then have "Suc ?n - N = Suc (?n - N)" by simp
    with False step N show ?thesis
      by (auto simp: push_step rb0 js_mod_def js_plus_def mod_Suc)
  qed
  have el: "elems (h' ! length h) (Some (j mod N)) = Some ((xs @ [x]) ! j)"
    if "j < Suc ?n" "Suc ?n \<le> j + N" for j
  proof (cases "j = ?n")
    case True
    then show ?thesis using len0 by (simp add: h' array_set_def)
  next
    case False
    with that have jn: "j < ?n" "?n < j + N" by simp_all
    then have "j mod N \<noteq> ?n mod N" by (rule mod_slot_distinct)
    with jn el0 [of j] show ?thesis
      using len0 by (simp add: h' array_set_def nth_append)
  qed
  from len0 h' rb el show ?case by simp
qed

lemma ring_zero:
  "fold RingBuffer_push xs (RingBuffer_new h 0) = (h', rb) \<Longrightarrow>
   length h' = Suc (length h) \<and> buffer rb = length h \<and> capacity rb = 0 \<and> rb_size rb = 0"
proof (induction xs arbitrary: h' rb rule: rev_induct)
  case Nil
  then show ?case by (auto simp: RingBuffer_new_def)
next
  case (snoc x xs)
  obtain h0 rb0 where s0: "fold RingBuffer_push xs (RingBuffer_new h 0) = (h0, rb0)"
    by (cases "fold RingBuffer_push xs (RingBuffer_new h 0)")
  from snoc.IH [OF s0] snoc.prems s0 show ?case
    by (auto simp: push_step)
qed

lemma push_frame:
  "fold RingBuffer_push ys (h, rb) = (h', rb') \<Longrightarrow>
   buffer rb' = buffer rb \<and> length h' = length h \<and> (\<forall>r. r \<noteq> buffer rb \<longrightarrow> h' ! r = h ! r)"
proof (induction ys arbitrary: h rb)
  case Nil
  then show ?case by simp
next
  case (Cons y ys)
  obtain h1 rb1 where s1: "RingBuffer_push y (h, rb) = (h1, rb1)"
    by (cases "RingBuffer_push y (h, rb)")
  then have "buffer rb1 = buffer rb" "length h1 = length h"
    "\<And>r. r \<noteq> buffer rb \<Longrightarrow> h1 ! r = h ! r"
    by (auto simp: push_step split: if_splits)
  with Cons.IH [of h1 rb1] Cons.prems s1 show ?case by simp
qed

lemma ring_contents:
  assumes s: "fold RingBuffer_push xs (RingBuffer_new h N) = (h', rb)"
  shows "List.map_filter (\<lambda>j. elems (h' ! buffer rb) (js_mod (js_plus (head rb) j) (capacity rb)))
           [0..<rb_size rb] = drop (length xs - N) xs"
proof (cases "N = 0")
  case True
  with ring_zero [of xs h h' rb] s show ?thesis
    by (simp add: List.map_filter_simps)
next
  case False
  then have N: "0 < N" by simp
  let ?n = "length xs"
  from ring_inv [OF N s] have
    rb: "rb = \<lparr>buffer = length h, capacity = N, head = Some ((?n - N) mod N),
               tail = Some (?n mod N), rb_size = min ?n N\<rparr>"
    and el: "\<And>j. j < ?n \<Longrightarrow> ?n \<le> j + N \<Longrightarrow> elems (h' ! length h) (Some (j mod N)) = Some (xs ! j)"
    by auto
  have rd: "elems (h' ! buffer rb) (js_mod (js_plus (head rb) j) (capacity rb))
            = Some (xs ! (?n - N + j))" if "j < min ?n N" for j
  proof -
    have "js_mod (js_plus (head rb) j) (capacity rb) = Some ((?n - N + j) mod N)"
      using N by (simp add: rb js_mod_def js_plus_def mod_add_left_eq)
    moreover have "?n - N + j < ?n" "?n \<le> ?n - N + j + N" using that by auto
    ultimately show ?thesis using el [of "?n - N + j"] by (simp add: rb)
  qed
  have "List.map_filter (\<lambda>j. elems (h' ! buffer rb) (js_mod (js_plus (head rb) j) (capacity rb)))
           [0..<rb_size rb] = map (\<lambda>j. xs ! (?n - N + j)) [0..<min ?n N]"
    unfolding List.map_filter_def using rd
    by (auto simp: rb intro!: nth_equalityI)
  also have "\<dots> = drop (?n - N) xs"
    by (auto intro!: nth_equalityI)
  finally show ?thesis .
qed


text \<open>
  Claim C2. For every sequence \<open>xs\<close> of pushes on a ring of capacity \<open>N\<close>, created in any
  store \<open>h\<close>, \<open>toArray\<close> returns a new array holding exactly the (at most \<open>N\<close>) most
  recently pushed items, oldest first; its length is at most \<open>N\<close>; its address is fresh
  (no array of the store before the call has it, in particular not the ring's own
  \<open>buffer\<close>), and any later pushes \<open>ys\<close> leave the returned array as it was.
\<close>

theorem RingBuffer_snapshot:
  "let s = fold RingBuffer_push xs (RingBuffer_new h N);
       (h', r) = RingBuffer_toArray s
   in array_items (h' ! r) = map Some (drop (length xs - N) xs) \<and>
      length (array_items (h' ! r)) \<le> N \<and>
      length (fst s) \<le> r \<and> r \<noteq> buffer (snd s) \<and>
      fst (fold RingBuffer_push ys (h', snd s)) ! r = h' ! r"
proof -
  obtain h1 rb where s: "fold RingBuffer_push xs (RingBuffer_new h N) = (h1, rb)"
    by (cases "fold RingBuffer_push xs (RingBuffer_new h N)")
  have bl: "buffer rb = length h" "length h1 = Suc (length h)"
    using push_frame [of xs "fst (RingBuffer_new h N)" "snd (RingBuffer_new h N)" h1 rb] s
    by (simp_all add: RingBuffer_new_def)
  define r where "r = length h1"
  define h2 where "h2 = toArray_loop (h1 @ [new_Array 0]) rb r 0"
  have ta: "RingBuffer_toArray (h1, rb) = (h2, r)"
    by (simp add: RingBuffer_toArray_def h2_def r_def Let_def)
  have rne: "r \<noteq> buffer rb" using bl by (simp add: r_def)
  have h2: "h2 = (h1 @ [new_Array 0])[r := foldl array_push (new_Array 0) (drop (length xs - N) xs)]"
    unfolding h2_def using rne bl ring_contents [OF s]
    by (subst toArray_loop_eq) (simp_all add: r_def nth_append)
  have items: "array_items (h2 ! r) = map Some (drop (length xs - N) xs)"
  proof -
    have "array_items (new_Array 0 :: 'a js_array) = []"
      by (simp add: array_items_def new_Array_def)
    then show ?thesis
      by (simp add: h2 r_def array_items_foldl_push)
  qed
  obtain h3 rb3 where s3: "fold RingBuffer_push ys (h2, rb) = (h3, rb3)"
    by (cases "fold RingBuffer_push ys (h2, rb)")
  from push_frame [OF s3] rne have keep: "h3 ! r = h2 ! r" by simp
  from items keep rne show ?thesis
    by (simp add: s ta s3 r_def)
qed

theorem RingBuffer_snapshot_witness:
  "let s = fold RingBuffer_push [1, 2, 3, 4, 5 :: nat] (RingBuffer_new [] 3);
       (h', r) = RingBuffer_toArray s
   in array_items (h' ! r) = [Some 3, Some 4, Some 5] \<and>
      length (array_items (h' ! r)) \<le> 3 \<and>
      length (fst s) \<le> r \<and> r \<noteq> buffer (snd s) \<and>
      fst (fold RingBuffer_push [6, 7] (h', snd s)) ! r = h' ! r"
  using RingBuffer_snapshot [of "[1, 2, 3, 4, 5 :: nat]" "[]" 3 "[6, 7]"]
  by simp

section \<open>Verification: BatchQueue\<close>

lemma sendReports_frame:
  "queue (sendReports rs q) = queue q \<and> bq_config (sendReports rs q) = bq_config q \<and>
   timerId (sendReports rs q) = timerId q \<and> has_window (sendReports rs q) = has_window q \<and>
   timers (sendReports rs q) = timers q \<and> next_timer (sendReports rs q) = next_timer q \<and>
   bq_sent (sendReports rs q) = bq_sent q @ [rs]"
  by (simp add: sendReports_def call_sender_def split: sender_result.splits)

lemma flush_result:
  assumes "has_window q \<or> timerId q = None"
  shows "snd (BatchQueue_flush q) = None \<and>
         has_window (fst (BatchQueue_flush q)) = has_window q \<and>
         timerId (fst (BatchQueue_flush q)) = None \<and>
         queue (fst (BatchQueue_flush q)) = [] \<and>
         bq_config (fst (BatchQueue_flush q)) = bq_config q \<and>
         timers (fst (BatchQueue_flush q)) =
           (case timerId q of None \<Rightarrow> timers q
            | Some t \<Rightarrow> filter (\<lambda>(i, due). i \<noteq> t) (timers q)) \<and>
         bq_sent (fst (BatchQueue_flush q)) =
           (if queue q = [] then bq_sent q else bq_sent q @ [map q_report (queue q)])"
  using assms
  by (cases "timerId q")
     (auto simp: BatchQueue_flush_def clearTimeout_def Let_def sendReports_frame)

lemma flush_inv:
  assumes "has_window q \<or> timerId q = None"
    and "map fst (timers q) = (case timerId q of None \<Rightarrow> [] | Some t \<Rightarrow> [t])"
  shows "bq_inv (fst (BatchQueue_flush q)) \<and> timers (fst (BatchQueue_flush q)) = []"
proof -
  have "timers (fst (BatchQueue_flush q)) = []"
    using assms(2) flush_result [OF assms(1)]
    by (cases "timerId q"; cases "timers q") auto
  with flush_result [OF assms(1)] show ?thesis
    by (simp add: bq_inv_def)
qed

lemma step_inv:
  assumes inv: "bq_inv q"
  shows "bq_inv (fst (bq_step ev q))"
proof -
  from inv have tm: "map fst (timers q) = (case timerId q of None \<Rightarrow> [] | Some t \<Rightarrow> [t])"
    and qe: "if has_window q then timerId q = None \<longleftrightarrow> queue q = [] else timerId q = None"
    by (simp_all add: bq_inv_def)
  from qe have w: "has_window q \<or> timerId q = None"
    by (simp split: if_splits)
  show ?thesis
  proof (cases ev)
    case (Add r now)
    show ?thesis
    proof (cases "bq_enabled (bq_config q)")
      case False
      with inv Add show ?thesis
        by (simp add: BatchQueue_add_def call_sender_def bq_inv_def)
    next
      case True
      let ?q1 = "q\<lparr>queue := queue q @ [\<lparr>q_report = r, q_timestamp = now\<rparr>]\<rparr>"
      show ?thesis
      proof (cases "int (length (queue ?q1)) \<ge> batchSize (bq_config ?q1)")
        case True
        with \<open>bq_enabled (bq_config q)\<close> Add flush_inv [of ?q1] w tm show ?thesis
          by (simp add: BatchQueue_add_def)
      next
        case False
        with \<open>bq_enabled (bq_config q)\<close> Add tm qe show ?thesis
          by (cases "timerId q")
             (auto simp: BatchQueue_add_def scheduleFlush_def bq_inv_def split: if_splits)
      qed
    qed
  next
    case Flush
    with flush_inv [OF w tm] show ?thesis by simp
  next
    case (TimerFires t)
    show ?thesis
    proof (cases "t \<in> fst ` set (timers q)")
      case False
      with TimerFires inv show ?thesis by (simp add: timer_fires_def)
    next
      case True
      have "set (map fst (timers q)) = fst ` set (timers q)" by simp
      with True tm have tid: "timerId q = Some t"
        by (cases "timerId q") auto
      with w have hw: "has_window q" by simp
      from tid tm have "map fst (timers (clearTimeout t q)) = []"
        by (cases "timers q") (auto simp: clearTimeout_def)
      then have "timers (clearTimeout t q) = []" by simp
      with hw have "bq_inv (fst (BatchQueue_flush (clearTimeout t q)))"
        using flush_result [of "clearTimeout t q"]
        by (simp add: bq_inv_def clearTimeout_def tid)
      with True TimerFires show ?thesis by (simp add: timer_fires_def)
    qed
  next
    case Clear
    with w tm show ?thesis
      by (cases "timers q")
         (auto simp: BatchQueue_clear_def clearTimeout_def Let_def bq_inv_def split: option.splits)
  next
    case (UpdateConfig cfg)
    with inv show ?thesis by (simp add: BatchQueue_updateConfig_def bq_inv_def)
  next
    case Destroy
    with flush_inv [OF w tm] show ?thesis by (simp add: BatchQueue_destroy_def)
  next
    case PageHide
    with flush_inv [OF w tm] show ?thesis by simp
  qed
qed

lemma run_inv: "bq_inv q \<Longrightarrow> bq_inv (bq_run evs q)"
  by (induction evs arbitrary: q) (simp_all add: step_inv)

lemma new_inv: "bq_inv (BatchQueue_new cfg sender w first_timer)"
  by (simp add: bq_inv_def BatchQueue_new_def)

text \<open>
  Claim C9. After any sequence of events on a newly constructed queue (adds, flushes,
  timers coming due, clears, configuration updates, page-hide flushes, destroy), at most
  one delayed-flush timer is pending, and it is the one the queue holds in \<open>timerId\<close>;
  in a browser a timer is pending exactly while reports wait. An add that leaves the
  queue below \<open>batchSize\<close> creates a timer only when none is pending (due \<open>delay\<close>
  after that add, the first since the last flush) and otherwise leaves the pending timer
  as it is. Every flush returns normally and leaves no timer pending.
\<close>

theorem BatchQueue_one_timer:
  "let q = bq_run evs (BatchQueue_new cfg sender w first_timer)
   in length (timers q) \<le> 1 \<and>
      map fst (timers q) = (case timerId q of None \<Rightarrow> [] | Some t \<Rightarrow> [t]) \<and>
      (has_window q \<longrightarrow> (timers q = [] \<longleftrightarrow> queue q = [])) \<and>
      (int (length (queue q)) + 1 < batchSize (bq_config q) \<longrightarrow>
         timers (fst (BatchQueue_add report now q)) =
           (if bq_enabled (bq_config q) \<and> has_window q \<and> timers q = []
            then [(next_timer q, int now + delay (bq_config q))] else timers q)) \<and>
      snd (BatchQueue_flush q) = None \<and>
      timers (fst (BatchQueue_flush q)) = [] \<and> timerId (fst (BatchQueue_flush q)) = None"
proof -
  define q where "q = bq_run evs (BatchQueue_new cfg sender w first_timer)"
  have inv: "bq_inv q" unfolding q_def by (rule run_inv [OF new_inv])
  then have tm: "map fst (timers q) = (case timerId q of None \<Rightarrow> [] | Some t \<Rightarrow> [t])"
    and qe: "if has_window q then timerId q = None \<longleftrightarrow> queue q = [] else timerId q = None"
    by (simp_all add: bq_inv_def)
  from qe have w: "has_window q \<or> timerId q = None"
    by (simp split: if_splits)
  have one: "length (timers q) \<le> 1"
    using arg_cong [OF tm, of length] by (simp split: option.splits)
  have te: "timers q = [] \<longleftrightarrow> queue q = []" if "has_window q"
    using that tm qe by (cases "timerId q") auto
  have ad: "timers (fst (BatchQueue_add report now q)) =
           (if bq_enabled (bq_config q) \<and> has_window q \<and> timers q = []
            then [(next_timer q, int now + delay (bq_config q))] else timers q)"
    if "int (length (queue q)) + 1 < batchSize (bq_config q)"
    using that w tm
    by (cases "timerId q")
       (auto simp: BatchQueue_add_def scheduleFlush_def call_sender_def Let_def)
  from flush_inv [OF w tm] have fl: "timers (fst (BatchQueue_flush q)) = []"
    "timerId (fst (BatchQueue_flush q)) = None" "snd (BatchQueue_flush q) = None"
    using flush_result [OF w] by simp_all
  from one tm te ad fl show ?thesis
    unfolding q_def [symmetric] Let_def by blast
qed

theorem BatchQueue_one_timer_witness:
  "let q = bq_run [Add ''A'' 5] (BatchQueue_new \<lparr>p_batchSize = Some 3, p_delay = Some 1000, p_enabled = None\<rparr> (\<lambda>n rs. Returns) True 1)
   in length (timers q) \<le> 1 \<and> timers q = [(1, 1005)] \<and> timerId q = Some 1 \<and> has_window q \<and>
      queue q \<noteq> [] \<and> int (length (queue q)) + 1 < batchSize (bq_config q) \<and>
      timers (fst (BatchQueue_add ''B'' 7 q)) = [(1, 1005)] \<and>
      snd (BatchQueue_flush q) = None \<and>
      timers (fst (BatchQueue_flush q)) = [] \<and> timerId (fst (BatchQueue_flush q)) = None"
  using BatchQueue_one_timer [of "[Add ''A'' 5]" "\<lparr>p_batchSize = Some 3, p_delay = Some 1000, p_enabled = None\<rparr>" "\<lambda>n rs. Returns" True 1 "''B''" 7]
  by (simp add: BatchQueue_new_def BatchQueue_add_def scheduleFlush_def Let_def)


lemma BatchQueue_adds_append:
  "BatchQueue_adds (xs @ ys) q =
     (case BatchQueue_adds xs q of (q1, None) \<Rightarrow> BatchQueue_adds ys q1
      | (q1, Some e) \<Rightarrow> (q1, Some e))"
  by (induction xs arbitrary: q) (auto split: prod.splits option.splits)

lemma adds_below:
  assumes "bq_enabled (bq_config q)" "has_window q"
    and "int (length (queue q) + length rs) < batchSize (bq_config q)"
  shows "snd (BatchQueue_adds rs q) = None \<and>
         queue (fst (BatchQueue_adds rs q)) =
           queue q @ map (\<lambda>(r, t). \<lparr>q_report = r, q_timestamp = t\<rparr>) rs \<and>
         bq_sent (fst (BatchQueue_adds rs q)) = bq_sent q \<and>
         bq_config (fst (BatchQueue_adds rs q)) = bq_config q \<and>
         has_window (fst (BatchQueue_adds rs q))"
  using assms
proof (induction rs arbitrary: q)
  case Nil
  then show ?case by simp
next
  case (Cons x rs)
  obtain r t where x: "x = (r, t)" by (cases x)
  let ?q1 = "q\<lparr>queue := queue q @ [\<lparr>q_report = r, q_timestamp = t\<rparr>]\<rparr>"
  obtain q2 where a: "BatchQueue_add r t q = (q2, None)"
    and q2: "queue q2 = queue ?q1" "bq_sent q2 = bq_sent q" "bq_config q2 = bq_config q"
      "has_window q2"
    using Cons.prems
    by (cases "timerId q") (auto simp: BatchQueue_add_def scheduleFlush_def)
  from Cons.prems q2 have "int (length (queue q2) + length rs) < batchSize (bq_config q2)"
    by simp
  with Cons.IH [of q2] q2 Cons.prems(1) a x show ?case by simp
qed

text \<open>
  Claim C3. Batching enabled, in a browser, starting from an empty queue: adding exactly
  \<open>batchSize\<close> reports raises nothing, calls the sender exactly once more, with all
  the reports in the order they were added, and leaves the queue empty; adding only the
  first \<open>k < batchSize\<close> of them calls the sender not at all and leaves them queued in
  order.
\<close>

theorem BatchQueue_flush_at_batchSize:
  assumes "bq_enabled (bq_config q)" and "has_window q" and "queue q = []"
    and "batchSize (bq_config q) = int (length rs)" and "rs \<noteq> []"
  shows "snd (BatchQueue_adds rs q) = None \<and>
         bq_sent (fst (BatchQueue_adds rs q)) = bq_sent q @ [map fst rs] \<and>
         queue (fst (BatchQueue_adds rs q)) = [] \<and>
         (k < length rs \<longrightarrow>
            snd (BatchQueue_adds (take k rs) q) = None \<and>
            bq_sent (fst (BatchQueue_adds (take k rs) q)) = bq_sent q \<and>
            map q_report (queue (fst (BatchQueue_adds (take k rs) q))) = map fst (take k rs))"
proof -
  let ?mk = "\<lambda>(r, t). \<lparr>q_report = r, q_timestamp = t\<rparr>"
  have mk: "q_report \<circ> ?mk = fst"
    by (auto simp: fun_eq_iff)
  obtain pre r t where rs: "rs = pre @ [(r, t)]"
    using assms(5) by (cases rs rule: rev_cases) auto
  from assms rs have below: "int (length (queue q) + length pre) < batchSize (bq_config q)"
    by simp
  define q1 where "q1 = fst (BatchQueue_adds pre q)"
  from adds_below [OF assms(1,2) below]
  have p: "BatchQueue_adds pre q = (q1, None)"
    and q1: "queue q1 = map ?mk pre" "bq_sent q1 = bq_sent q" "bq_config q1 = bq_config q"
      "has_window q1"
    by (simp_all add: q1_def assms(3) prod_eq_iff)
  let ?q2 = "q1\<lparr>queue := queue q1 @ [\<lparr>q_report = r, q_timestamp = t\<rparr>]\<rparr>"
  have full: "BatchQueue_adds rs q = BatchQueue_flush ?q2"
    using p q1 assms(1,4)
    by (simp add: rs BatchQueue_adds_append BatchQueue_add_def split: prod.splits option.splits)
  have hw: "has_window ?q2 \<or> timerId ?q2 = None" using q1 by simp
  have whole: "snd (BatchQueue_adds rs q) = None"
    "bq_sent (fst (BatchQueue_adds rs q)) = bq_sent q @ [map fst rs]"
    "queue (fst (BatchQueue_adds rs q)) = []"
    unfolding full using flush_result [OF hw] q1 by (simp_all add: rs mk)
  have part: "snd (BatchQueue_adds (take k rs) q) = None \<and>
            bq_sent (fst (BatchQueue_adds (take k rs) q)) = bq_sent q \<and>
            map q_report (queue (fst (BatchQueue_adds (take k rs) q))) = map fst (take k rs)"
    if "k < length rs"
  proof -
    from that assms have "int (length (queue q) + length (take k rs)) < batchSize (bq_config q)"
      by simp
    from adds_below [OF assms(1,2) this] show ?thesis
      by (simp add: assms(3) mk)
  qed
  from whole part show ?thesis by blast
qed

theorem BatchQueue_flush_at_batchSize_witness:
  "let q = BatchQueue_new \<lparr>p_batchSize = Some 3, p_delay = Some 1000, p_enabled = None\<rparr>
             (\<lambda>n rs. Returns) True 1;
       rs = [(''A'', 5), (''B'', 7), (''C'', 9)]
   in bq_enabled (bq_config q) \<and> has_window q \<and> queue q = [] \<and>
      batchSize (bq_config q) = int (length rs) \<and> rs \<noteq> [] \<and>
      snd (BatchQueue_adds rs q) = None \<and>
      bq_sent (fst (BatchQueue_adds rs q)) = [[''A'', ''B'', ''C'']] \<and>
      queue (fst (BatchQueue_adds rs q)) = [] \<and>
      bq_sent (fst (BatchQueue_adds (take 2 rs) q)) = [] \<and>
      map q_report (queue (fst (BatchQueue_adds (take 2 rs) q))) = [''A'', ''B'']"
proof -
  define q :: "string BatchQueue" where
    "q = BatchQueue_new \<lparr>p_batchSize = Some 3, p_delay = Some 1000, p_enabled = None\<rparr>
             (\<lambda>n rs. Returns) True 1"
  define rs :: "(string \<times> nat) list" where "rs = [(''A'', 5), (''B'', 7), (''C'', 9)]"
  have h: "bq_enabled (bq_config q)" "has_window q" "queue q = []"
    "batchSize (bq_config q) = int (length rs)" "rs \<noteq> []"
    by (simp_all add: q_def rs_def BatchQueue_new_def)
  have s: "bq_sent q = []" by (simp add: q_def BatchQueue_new_def)
  from BatchQueue_flush_at_batchSize [OF h, of 2] h s show ?thesis
    unfolding q_def [symmetric] rs_def [symmetric] Let_def
    by (simp add: rs_def)
qed

section \<open>Verification: OfflineCache\<close>



lemma attempts_by_append:
  "attempts_by pass (xs @ ys) = attempts_by pass xs @ attempts_by pass ys"
  by (induction pass xs rule: attempts_by.induct) simp_all

lemma persists_by_append:
  "persists_by pass (xs @ ys) = persists_by pass xs + persists_by pass ys"
  by (simp add: persists_by_def)

lemma entries_by_append:
  "entries_by pass (xs @ ys) = entries_by pass xs @ entries_by pass ys"
  by (simp add: entries_by_def)

lemma failures_append: "failures a (xs @ ys) = failures a xs + failures a ys"
  by (simp add: failures_def)

lemma delivered_append: "delivered a (xs @ ys) \<longleftrightarrow> delivered a xs \<or> delivered a ys"
  by (simp add: delivered_def)

lemma log_simps:
  "failures a [] = 0" "\<not> delivered a []"
  "failures a [Attempt p b] = 0" "\<not> delivered a [Attempt p b]"
  "failures a [Persist p] = 0" "\<not> delivered a [Persist p]"
  "failures a [Settle p b ok] = (if b = a \<and> \<not> ok then 1 else 0)"
  "delivered a [Settle p b ok] \<longleftrightarrow> b = a \<and> ok"
  "persists_by pass [] = 0"
  "persists_by pass [Attempt p b] = 0"
  "persists_by pass [Settle p b ok] = 0"
  "persists_by pass [Persist p] = (if p = pass then 1 else 0)"
  "entries_by pass [] = []"
  "entries_by pass [e] = (if entry_pass e = pass then [e] else [])"
  by (auto simp: failures_def delivered_def persists_by_def entries_by_def)

lemma attempts_by_other:
  "\<forall>e \<in> set es. entry_pass e \<noteq> pass \<Longrightarrow> attempts_by pass es = []"
  by (induction pass es rule: attempts_by.induct) auto

lemma persists_by_other:
  "\<forall>e \<in> set es. entry_pass e \<noteq> pass \<Longrightarrow> persists_by pass es = 0"
  by (auto simp: persists_by_def filter_empty_conv)

lemma entries_by_other:
  "\<forall>e \<in> set es. entry_pass e \<noteq> pass \<Longrightarrow> entries_by pass es = []"
  by (auto simp: entries_by_def filter_empty_conv)

lemma entries_by_same:
  "\<forall>e \<in> set es. entry_pass e = pass \<Longrightarrow> entries_by pass es = es"
  by (auto simp: entries_by_def filter_id_conv)

lemma pass_acts_trans:
  assumes 1: "pass_acts pass its1 new1 s m" and 2: "pass_acts pass its2 new2 m t"
    and disj: "set its1 \<inter> set its2 = {}"
    and v: "\<forall>a \<in> set (cacheQueue s). a < length (objs s)"
  shows "pass_acts pass (its1 @ its2) (new1 @ new2) s t"
proof -
  have f1: "failures a new1 = 0 \<and> \<not> delivered a new1" if "a \<notin> set its1" for a
    using 1 that by (simp add: pass_acts_def)
  have f2: "failures a new2 = 0 \<and> \<not> delivered a new2" if "a \<notin> set its2" for a
    using 2 that by (simp add: pass_acts_def)
  have one: "failures a new1 = 0 \<and> \<not> delivered a new1 \<or> failures a new2 = 0 \<and> \<not> delivered a new2" for a
    using f1 [of a] f2 [of a] disj by blast
  have len: "length (objs m) = length (objs s)" "length (objs t) = length (objs s)"
    using 1 2 by (simp_all add: pass_acts_def)
  have om: "objs m ! a = (objs s ! a)\<lparr>retryCount := retryCount (objs s ! a) + failures a new1\<rparr>"
    if "a < length (objs s)" for a using 1 that by (simp add: pass_acts_def)
  have ot: "objs t ! a = (objs m ! a)\<lparr>retryCount := retryCount (objs m ! a) + failures a new2\<rparr>"
    if "a < length (objs s)" for a using 2 that len by (simp add: pass_acts_def)
  have obj: "objs t ! a = (objs s ! a)\<lparr>retryCount := retryCount (objs s ! a) + failures a (new1 @ new2)\<rparr>"
    if "a < length (objs s)" for a
    using om [OF that] ot [OF that] by (simp add: failures_append)
  have qm: "cacheQueue m =
       filter (\<lambda>a. \<not> delivered a new1 \<and> \<not> (0 < failures a new1 \<and> 3 < retryCount (objs m ! a)))
         (cacheQueue s)" using 1 by (simp add: pass_acts_def)
  have qt: "cacheQueue t =
       filter (\<lambda>a. \<not> delivered a new2 \<and> \<not> (0 < failures a new2 \<and> 3 < retryCount (objs t ! a)))
         (cacheQueue m)" using 2 by (simp add: pass_acts_def)
  have q: "cacheQueue t =
       filter (\<lambda>a. \<not> delivered a (new1 @ new2) \<and>
                 \<not> (0 < failures a (new1 @ new2) \<and> 3 < retryCount (objs t ! a)))
         (cacheQueue s)"
    unfolding qt qm filter_filter
  proof (rule filter_cong [OF refl])
    fix a assume "a \<in> set (cacheQueue s)"
    with v have a: "a < length (objs s)" by blast
    from one [of a] om [OF a] ot [OF a]
    show "((\<not> delivered a new1 \<and> \<not> (0 < failures a new1 \<and> 3 < retryCount (objs m ! a))) \<and>
           \<not> delivered a new2 \<and> \<not> (0 < failures a new2 \<and> 3 < retryCount (objs t ! a))) =
          (\<not> delivered a (new1 @ new2) \<and>
                 \<not> (0 < failures a (new1 @ new2) \<and> 3 < retryCount (objs t ! a)))"
      by (auto simp: failures_append delivered_append)
  qed
  from 1 2 show ?thesis
    unfolding pass_acts_def [of pass "its1 @ its2"]
    using obj q len
    by (auto simp: pass_acts_def failures_append delivered_append)
qed

lemma pass_acts_mono:
  "pass_acts pass its new s t \<Longrightarrow> set its \<subseteq> set its' \<Longrightarrow> pass_acts pass its' new s t"
  by (auto simp: pass_acts_def)

lemma settle_acts:
  assumes c: "c < length (objs s)" and d: "distinct (cacheQueue s)"
  shows "pass_acts pass [c] [Settle pass c ok] s (fst (settle pass c ok failed s))"
proof -
  have r: "remove1 c (cacheQueue s) = filter (\<lambda>a. a \<noteq> c) (cacheQueue s)"
    using d by (simp add: distinct_remove1_removeAll removeAll_filter_not_eq) (metis)
  show ?thesis
    using c unfolding pass_acts_def settle_def Let_def
    by (auto simp: log_simps r nth_list_update intro!: filter_cong)
qed

lemma settle_frame:
  "passes (fst (settle pass c ok failed s)) = passes s \<and>
   oc_sent (fst (settle pass c ok failed s)) = oc_sent s \<and>
   oc_writes (fst (settle pass c ok failed s)) = oc_writes s \<and>
   localStorage (fst (settle pass c ok failed s)) = localStorage s"
  by (simp add: settle_def Let_def)

lemma pass_acts_queue:
  assumes "pass_acts pass its new s t"
  shows "set (cacheQueue t) \<subseteq> set (cacheQueue s)"
    and "distinct (cacheQueue s) \<Longrightarrow> distinct (cacheQueue t)"
    and "length (objs t) = length (objs s)"
    and "length (cacheQueue t) \<le> length (cacheQueue s)"
  using assms by (auto simp: pass_acts_def)

lemma pass_acts_report:
  "pass_acts pass its new s t \<Longrightarrow> a < length (objs s) \<Longrightarrow> c_report (objs t ! a) = c_report (objs s ! a)"
  by (simp add: pass_acts_def)

lemma flush_from_char:
  assumes "distinct rest" and "\<forall>a \<in> set rest. a < length (objs s)"
    and "distinct (cacheQueue s)" and "\<forall>a \<in> set (cacheQueue s). a < length (objs s)"
  shows "\<exists>new. pass_acts pass rest new s (flush_from pass rest failed s) \<and>
               pass_goes_on pass rest new s (flush_from pass rest failed s)"
  using assms
proof (induction rest arbitrary: failed s)
  case Nil
  have "pass_acts pass [] [Persist pass] s (flush_from pass [] failed s)"
    by (simp add: pass_acts_def saveToStorage_def Let_def log_simps split: option.splits)
  moreover have "pass_goes_on pass [] [Persist pass] s (flush_from pass [] failed s)"
    by (simp add: pass_goes_on_def saveToStorage_def Let_def log_simps cached_def
          split: option.splits)
  ultimately show ?case by blast
next
  case (Cons c rest)
  define s2 where "s2 = s\<lparr>oc_sent := oc_sent s @ [c_report (objs s ! c)],
                          pass_log := pass_log s @ [Attempt pass c]\<rparr>"
  define result where "result = oc_sender s (length (oc_sent s)) (c_report (objs s ! c))"
  have a2: "pass_acts pass [] [Attempt pass c] s s2"
    by (simp add: pass_acts_def s2_def log_simps)
  from Cons.prems have c: "c < length (objs s)" "c \<notin> set rest" "distinct rest"
    and v: "\<forall>a \<in> set rest. a < length (objs s)" by auto
  show ?case
  proof (cases "\<exists>e. result = Throws e")
    case False
    define p where "p = \<lparr>fp_id = pass, fp_awaited = c, fp_rejects = (result \<noteq> Returns),
                    fp_rest = rest, fp_failed = failed\<rparr>"
    from False have t: "flush_from pass (c # rest) failed s = s2\<lparr>passes := passes s2 @ [p]\<rparr>"
      by (cases result) (simp_all add: oc_call_sender_def s2_def p_def result_def Let_def)
    have "pass_acts pass (c # rest) [Attempt pass c] s (flush_from pass (c # rest) failed s)"
      using a2 unfolding t by (auto simp: pass_acts_def)
    moreover have "pass_goes_on pass (c # rest) [Attempt pass c] s (flush_from pass (c # rest) failed s)"
      unfolding t pass_goes_on_def
      by (rule conjI, simp add: s2_def, rule disjI1, rule exI [of _ p], rule exI [of _ "[c]"])
         (simp add: s2_def p_def log_simps)
    ultimately show ?thesis by blast
  next
    case True
    define s3 where "s3 = fst (settle pass c False failed s2)"
    define f3 where "f3 = snd (settle pass c False failed s2)"
    from True have t: "flush_from pass (c # rest) failed s = flush_from pass rest f3 s3"
      by (auto simp: oc_call_sender_def s2_def s3_def f3_def result_def Let_def split: prod.splits)
    have c2: "c < length (objs s2)" "distinct (cacheQueue s2)"
      using c Cons.prems by (simp_all add: s2_def)
    have a3: "pass_acts pass [c] [Settle pass c False] s2 s3"
      unfolding s3_def by (rule settle_acts [OF c2])
    have a23: "pass_acts pass ([] @ [c]) ([Attempt pass c] @ [Settle pass c False]) s s3"
      by (rule pass_acts_trans [OF a2 a3]) (use Cons.prems in auto)
    note q3 = pass_acts_queue [OF a23]
    have p3: "distinct rest" "\<forall>a \<in> set rest. a < length (objs s3)"
      "distinct (cacheQueue s3)" "\<forall>a \<in> set (cacheQueue s3). a < length (objs s3)"
      using c v q3 Cons.prems by auto
    from Cons.IH [OF p3, of f3] obtain new where
      n1: "pass_acts pass rest new s3 (flush_from pass rest f3 s3)" and
      n2: "pass_goes_on pass rest new s3 (flush_from pass rest f3 s3)" by blast
    let ?new = "[Attempt pass c, Settle pass c False] @ new"
    have "pass_acts pass (([] @ [c]) @ rest) (([Attempt pass c] @ [Settle pass c False]) @ new) s
            (flush_from pass rest f3 s3)"
      by (rule pass_acts_trans [OF a23 n1]) (use c Cons.prems in auto)
    then have r1: "pass_acts pass (c # rest) ?new s (flush_from pass (c # rest) failed s)"
      unfolding t by simp
    have fr: "passes s3 = passes s" "oc_sent s3 = oc_sent s @ [c_report (objs s ! c)]"
      "oc_writes s3 = oc_writes s" "localStorage s3 = localStorage s"
      "oc_config s3 = oc_config s"
      using a23 by (simp_all add: s3_def settle_frame s2_def pass_acts_def)
    have rep: "map (\<lambda>a. c_report (objs s3 ! a)) xs = map (\<lambda>a. c_report (objs s ! a)) xs"
      if "set xs \<subseteq> set rest" for xs
      using that v pass_acts_report [OF a23] by (intro map_cong refl) auto
    have sub: "set (attempts_by pass new) \<subseteq> set rest"
      using n2 unfolding pass_goes_on_def by auto
    have r2: "pass_goes_on pass (c # rest) ?new s (flush_from pass (c # rest) failed s)"
      using n2 unfolding t pass_goes_on_def fr rep [OF sub]
      by (elim conjE disjE exE)
         (rule conjI, simp, rule disjI1, auto simp: persists_by_def)+
    from r1 r2 show ?thesis by blast
  qed
qed

lemma pass_goes_on_rest:
  assumes "pass_goes_on pass rest new s t" and "distinct rest"
    and "passes t = passes s @ [p]"
  shows "fp_id p = pass" and "distinct (fp_awaited p # fp_rest p)"
    and "set (fp_awaited p # fp_rest p) \<subseteq> set rest"
proof -
  from assms(1,3) obtain pre where pre: "fp_id p = pass" "rest = pre @ fp_rest p" "pre \<noteq> []"
    "last pre = fp_awaited p"
    unfolding pass_goes_on_def by auto
  then have "fp_awaited p \<in> set pre" using last_in_set by metis
  with pre assms(2) show "fp_id p = pass" "distinct (fp_awaited p # fp_rest p)"
    "set (fp_awaited p # fp_rest p) \<subseteq> set rest" by auto
qed

lemma pass_goes_on_passes:
  "pass_goes_on pass rest new s t \<Longrightarrow>
   passes t = passes s \<or> (\<exists>p. passes t = passes s @ [p])"
  unfolding pass_goes_on_def by auto

text \<open>A call of \<open>flush\<close> on a queue that is not empty: a new pass, begun on the whole queue.\<close>

lemma OfflineCache_flush_char:
  assumes wf: "oc_wf s" and ne: "cacheQueue s \<noteq> []"
  shows "\<exists>new. pass_acts (passes_started s) (cacheQueue s) new
                 (s\<lparr>passes_started := passes_started s + 1\<rparr>) (OfflineCache_flush s) \<and>
               pass_goes_on (passes_started s) (cacheQueue s) new
                 (s\<lparr>passes_started := passes_started s + 1\<rparr>) (OfflineCache_flush s)"
proof -
  let ?s0 = "s\<lparr>passes_started := passes_started s + 1\<rparr>"
  have "OfflineCache_flush s = flush_from (passes_started s) (cacheQueue s) [] ?s0"
    using ne by (simp add: OfflineCache_flush_def)
  moreover have "distinct (cacheQueue s)" "\<forall>a \<in> set (cacheQueue s). a < length (objs ?s0)"
    "distinct (cacheQueue ?s0)" "\<forall>a \<in> set (cacheQueue ?s0). a < length (objs ?s0)"
    using wf by (simp_all add: oc_wf_def)
  ultimately show ?thesis
    using flush_from_char [of "cacheQueue s" ?s0 "passes_started s" "[]"] by simp
qed

lemma find_pass:
  assumes "distinct (map fp_id ps)" and "p \<in> set ps"
  shows "find (\<lambda>q. fp_id q = fp_id p) ps = Some p"
  using assms by (induction ps) (auto simp: image_iff)

lemma find_pass_None: "find (\<lambda>q. fp_id q = pass) ps = None \<longleftrightarrow> pass \<notin> fp_id ` set ps"
  by (auto simp: find_None_iff image_iff)

lemma find_pass_Some:
  "find (\<lambda>q. fp_id q = pass) ps = Some p \<Longrightarrow> p \<in> set ps \<and> fp_id p = pass"
  by (auto simp: find_Some_iff)

lemma remove1_pass:
  assumes "distinct (map fp_id ps)" and "p \<in> set ps"
  shows "fp_id ` set (remove1 p ps) = fp_id ` set ps - {fp_id p}"
    and "distinct (map fp_id (remove1 p ps))"
proof -
  from assms have d: "distinct ps" by (simp add: distinct_map)
  from assms show "fp_id ` set (remove1 p ps) = fp_id ` set ps - {fp_id p}"
    using d by (auto simp: distinct_map inj_on_def image_iff)
  from assms show "distinct (map fp_id (remove1 p ps))"
    using d by (auto simp: distinct_map intro: inj_on_subset)
qed

lemma flush_resumes_char:
  assumes wf: "oc_wf s" and pwf: "passes_wf s"
    and p: "find (\<lambda>q. fp_id q = pass) (passes s) = Some p"
  shows "\<exists>new. pass_acts pass (fp_awaited p # fp_rest p)
                 ([Settle pass (fp_awaited p) (\<not> fp_rejects p)] @ new) s (flush_resumes pass s) \<and>
               pass_goes_on pass (fp_rest p) new
                 (fst (settle pass (fp_awaited p) (\<not> fp_rejects p) (fp_failed p)
                         (s\<lparr>passes := remove1 p (passes s)\<rparr>)))
                 (flush_resumes pass s)"
proof -
  let ?s1 = "s\<lparr>passes := remove1 p (passes s)\<rparr>"
  let ?st = "settle pass (fp_awaited p) (\<not> fp_rejects p) (fp_failed p) ?s1"
  from find_pass_Some [OF p] have pin: "p \<in> set (passes s)" by simp
  with pwf have pv: "distinct (fp_awaited p # fp_rest p)"
    "\<forall>a \<in> set (fp_awaited p # fp_rest p). a < length (objs s)"
    unfolding passes_wf_def by blast+
  have t: "flush_resumes pass s = flush_from pass (fp_rest p) (snd ?st) (fst ?st)"
    by (simp add: flush_resumes_def p Let_def split: prod.splits)
  have a0: "pass_acts pass [] [] s ?s1"
    by (simp add: pass_acts_def log_simps)
  have a1: "pass_acts pass [fp_awaited p] [Settle pass (fp_awaited p) (\<not> fp_rejects p)] ?s1 (fst ?st)"
    by (rule settle_acts) (use pv wf in \<open>simp_all add: oc_wf_def\<close>)
  have a01: "pass_acts pass ([] @ [fp_awaited p]) ([] @ [Settle pass (fp_awaited p) (\<not> fp_rejects p)])
               s (fst ?st)"
    by (rule pass_acts_trans [OF a0 a1]) (use wf in \<open>simp_all add: oc_wf_def\<close>)
  note q = pass_acts_queue [OF a01]
  have pre: "distinct (fp_rest p)" "\<forall>a \<in> set (fp_rest p). a < length (objs (fst ?st))"
    "distinct (cacheQueue (fst ?st))" "\<forall>a \<in> set (cacheQueue (fst ?st)). a < length (objs (fst ?st))"
    using pv q wf by (auto simp: oc_wf_def)
  from flush_from_char [OF pre, of pass "snd ?st"] obtain new where
    n1: "pass_acts pass (fp_rest p) new (fst ?st) (flush_from pass (fp_rest p) (snd ?st) (fst ?st))"
    and n2: "pass_goes_on pass (fp_rest p) new (fst ?st) (flush_from pass (fp_rest p) (snd ?st) (fst ?st))"
    by blast
  have "pass_acts pass (([] @ [fp_awaited p]) @ fp_rest p)
          (([] @ [Settle pass (fp_awaited p) (\<not> fp_rejects p)]) @ new) s
          (flush_from pass (fp_rest p) (snd ?st) (fst ?st))"
    by (rule pass_acts_trans [OF a01 n1]) (use pv wf in \<open>auto simp: oc_wf_def\<close>)
  with n2 show ?thesis unfolding t by auto
qed



lemma flush_wf:
  assumes wf: "oc_wf s" and pwf: "passes_wf s"
  shows "oc_wf (OfflineCache_flush s) \<and> passes_wf (OfflineCache_flush s)"
proof (cases "cacheQueue s = []")
  case True
  with assms show ?thesis by (simp add: OfflineCache_flush_def)
next
  case False
  let ?s0 = "s\<lparr>passes_started := passes_started s + 1\<rparr>"
  let ?t = "OfflineCache_flush s"
  from OfflineCache_flush_char [OF wf False] obtain new where
    a: "pass_acts (passes_started s) (cacheQueue s) new ?s0 ?t" and
    g: "pass_goes_on (passes_started s) (cacheQueue s) new ?s0 ?t" by blast
  from wf have d: "distinct (cacheQueue s)" and v: "\<forall>a \<in> set (cacheQueue s). a < length (objs s)"
    by (simp_all add: oc_wf_def)
  note q = pass_acts_queue [OF a]
  have 1: "oc_wf ?t" using q d v by (auto simp: oc_wf_def)
  have lg: "pass_log ?t = pass_log s @ new" "\<forall>e \<in> set new. entry_pass e = passes_started s"
    "passes_started ?t = passes_started s + 1" "length (objs ?t) = length (objs s)"
    using a by (simp_all add: pass_acts_def)
  from pass_goes_on_passes [OF g] have 2: "passes_wf ?t"
  proof
    assume "passes ?t = passes ?s0"
    with pwf lg show ?thesis by (auto simp: passes_wf_def)
  next
    assume "\<exists>p. passes ?t = passes ?s0 @ [p]"
    then obtain p where p: "passes ?t = passes ?s0 @ [p]" ..
    note r = pass_goes_on_rest [OF g d p]
    from pwf have "passes_started s \<notin> fp_id ` set (passes s)"
      by (auto simp: passes_wf_def)
    with pwf lg r v show ?thesis
      unfolding passes_wf_def p by (auto simp: image_iff)
  qed
  from 1 2 show ?thesis ..
qed

lemma flush_resumes_wf:
  assumes wf: "oc_wf s" and pwf: "passes_wf s"
  shows "oc_wf (flush_resumes pass s) \<and> passes_wf (flush_resumes pass s)"
proof (cases "find (\<lambda>q. fp_id q = pass) (passes s)")
  case None
  with assms show ?thesis by (simp add: flush_resumes_def)
next
  case (Some p)
  let ?s1 = "s\<lparr>passes := remove1 p (passes s)\<rparr>"
  let ?s2 = "fst (settle pass (fp_awaited p) (\<not> fp_rejects p) (fp_failed p) ?s1)"
  let ?t = "flush_resumes pass s"
  from flush_resumes_char [OF wf pwf Some] obtain new where
    a: "pass_acts pass (fp_awaited p # fp_rest p)
          ([Settle pass (fp_awaited p) (\<not> fp_rejects p)] @ new) s ?t" and
    g: "pass_goes_on pass (fp_rest p) new ?s2 ?t" by blast
  from find_pass_Some [OF Some] have pin: "p \<in> set (passes s)" "fp_id p = pass" by simp_all
  from wf have d: "distinct (cacheQueue s)" and v: "\<forall>a \<in> set (cacheQueue s). a < length (objs s)"
    by (simp_all add: oc_wf_def)
  from pwf pin have pv: "distinct (fp_awaited p # fp_rest p)"
    "\<forall>a \<in> set (fp_awaited p # fp_rest p). a < length (objs s)" "pass < passes_started s"
    "distinct (map fp_id (passes s))"
    unfolding passes_wf_def by blast+
  note q = pass_acts_queue [OF a]
  have 1: "oc_wf ?t" using q d v by (auto simp: oc_wf_def)
  have lg: "pass_log ?t = pass_log s @ [Settle pass (fp_awaited p) (\<not> fp_rejects p)] @ new"
    "\<forall>e \<in> set new. entry_pass e = pass"
    "passes_started ?t = passes_started s" "length (objs ?t) = length (objs s)"
    using a by (simp_all add: pass_acts_def)
  have p2: "passes ?s2 = remove1 p (passes s)" by (simp add: settle_frame)
  note rm = remove1_pass [OF pv(4) pin(1)]
  have old: "\<forall>q \<in> set (remove1 p (passes s)).
        fp_id q < passes_started s \<and> distinct (fp_awaited q # fp_rest q) \<and>
        (\<forall>a \<in> set (fp_awaited q # fp_rest q). a < length (objs s))"
    using pwf unfolding passes_wf_def by (meson notin_set_remove1)
  from pass_goes_on_passes [OF g] have 2: "passes_wf ?t"
  proof
    assume e: "passes ?t = passes ?s2"
    show ?thesis
      unfolding passes_wf_def e p2 lg using rm(2) old pwf pv(3) lg(2)
      by (auto simp: passes_wf_def)
  next
    assume "\<exists>p'. passes ?t = passes ?s2 @ [p']"
    then obtain p' where p': "passes ?t = passes ?s2 @ [p']" ..
    from pv(1) have dr: "distinct (fp_rest p)" by simp
    note r = pass_goes_on_rest [OF g dr p']
    have fresh: "fp_id p' \<notin> fp_id ` set (remove1 p (passes s))"
      using rm(1) r(1) pin(2) by simp
    have new_ok: "fp_id p' < passes_started s \<and> distinct (fp_awaited p' # fp_rest p') \<and>
        (\<forall>a \<in> set (fp_awaited p' # fp_rest p'). a < length (objs s))"
      using r pv by auto
    show ?thesis
      unfolding passes_wf_def p' p2 lg using rm(2) old pwf pv(3) lg(2) fresh new_ok
      by (auto simp: passes_wf_def)
  qed
  from 1 2 show ?thesis ..
qed

lemma saveToStorage_frame:
  "cacheQueue (saveToStorage s) = cacheQueue s \<and> objs (saveToStorage s) = objs s \<and>
   isOnline (saveToStorage s) = isOnline s \<and> oc_sent (saveToStorage s) = oc_sent s \<and>
   oc_config (saveToStorage s) = oc_config s \<and> oc_sender (saveToStorage s) = oc_sender s \<and>
   passes (saveToStorage s) = passes s \<and> passes_started (saveToStorage s) = passes_started s \<and>
   pass_log (saveToStorage s) = pass_log s"
  by (simp add: saveToStorage_def Let_def split: option.splits)

lemma saveToStorage_writes:
  "oc_writes (saveToStorage s) =
     (case localStorage s of
        None \<Rightarrow> oc_writes s
      | Some ls \<Rightarrow> if setItem_throws ls then oc_writes s
                   else oc_writes s @ [(storageKey (oc_config s), cached s)])"
  by (simp add: saveToStorage_def cached_def Let_def split: option.splits)

lemma save_wf: "oc_wf (saveToStorage s) = oc_wf s" "passes_wf (saveToStorage s) = passes_wf s"
  by (simp_all add: oc_wf_def passes_wf_def saveToStorage_frame)

lemma cache_queue:
  "oc_enabled (oc_config s) \<Longrightarrow>
   objs (OfflineCache_cache report now s) =
     objs s @ [\<lparr>c_report = report, c_timestamp = now, retryCount = 0\<rparr>] \<and>
   cacheQueue (OfflineCache_cache report now s) =
     (if int (length (cacheQueue s)) + 1 > maxCacheSize (oc_config s)
      then tl (cacheQueue s @ [length (objs s)]) else cacheQueue s @ [length (objs s)])"
  by (simp add: OfflineCache_cache_def Let_def saveToStorage_frame)

lemma cache_frame:
  "passes (OfflineCache_cache report now s) = passes s \<and>
   passes_started (OfflineCache_cache report now s) = passes_started s \<and>
   pass_log (OfflineCache_cache report now s) = pass_log s \<and>
   oc_sent (OfflineCache_cache report now s) = oc_sent s \<and>
   length (objs s) \<le> length (objs (OfflineCache_cache report now s)) \<and>
   (\<forall>a < length (objs s). objs (OfflineCache_cache report now s) ! a = objs s ! a)"
  by (simp add: OfflineCache_cache_def Let_def saveToStorage_frame nth_append)

lemma cache_wf:
  assumes "oc_wf s"
  shows "oc_wf (OfflineCache_cache report now s)"
proof (cases "oc_enabled (oc_config s)")
  case False
  with assms show ?thesis by (simp add: OfflineCache_cache_def)
next
  case True
  let ?q = "cacheQueue s @ [length (objs s)]"
  from assms have d: "distinct ?q" and v: "\<forall>a \<in> set ?q. a < Suc (length (objs s))"
    by (auto simp: oc_wf_def)
  have "distinct (tl ?q)" using d by (rule distinct_tl)
  moreover have "\<forall>a \<in> set (tl ?q). a < Suc (length (objs s))"
    using v by (metis list.set_sel(2) tl_Nil)
  ultimately show ?thesis
    using d v cache_queue [OF True, of report now] by (simp add: oc_wf_def)
qed

lemma cache_passes_wf:
  assumes "passes_wf s"
  shows "passes_wf (OfflineCache_cache report now s)"
proof -
  have le: "length (objs s) \<le> length (objs (OfflineCache_cache report now s))"
    using cache_frame [of report now s] by simp
  have eq: "passes (OfflineCache_cache report now s) = passes s"
    "passes_started (OfflineCache_cache report now s) = passes_started s"
    "pass_log (OfflineCache_cache report now s) = pass_log s"
    using cache_frame [of report now s] by simp_all
  show ?thesis
    using assms unfolding passes_wf_def eq
    by (auto intro: less_le_trans [OF _ le])
qed

lemma step_wf:
  assumes "oc_wf s" and "passes_wf s"
  shows "oc_wf (oc_step e s) \<and> passes_wf (oc_step e s)"
proof (cases e)
  case (OcCache r now)
  with assms show ?thesis by (simp add: cache_wf cache_passes_wf)
next
  case (OcSend r now)
  have "oc_wf (s\<lparr>oc_sent := oc_sent s @ [r]\<rparr>)" "passes_wf (s\<lparr>oc_sent := oc_sent s @ [r]\<rparr>)"
    using assms by (simp_all add: oc_wf_def passes_wf_def)
  with OcSend assms show ?thesis
    by (simp add: OfflineCache_send_def oc_call_sender_def cache_wf cache_passes_wf)
next
  case OcOnline
  let ?s = "s\<lparr>isOnline := True,
          oc_console := oc_console s @ [''[OfflineCache] Network restored, flushing cache...'']\<rparr>"
  have "oc_wf ?s" "passes_wf ?s" using assms by (simp_all add: oc_wf_def passes_wf_def)
  with OcOnline show ?thesis by (simp add: handleOnline_def flush_wf)
next
  case OcOffline
  with assms show ?thesis by (simp add: handleOffline_def oc_wf_def passes_wf_def)
next
  case OcFlush
  with assms show ?thesis by (simp add: flush_wf)
next
  case OcClear
  have "oc_wf (s\<lparr>cacheQueue := []\<rparr>)" "passes_wf (s\<lparr>cacheQueue := []\<rparr>)"
    using assms by (simp_all add: oc_wf_def passes_wf_def)
  with OcClear show ?thesis by (simp add: OfflineCache_clear_def save_wf)
next
  case OcDestroy
  with assms show ?thesis by (simp add: OfflineCache_destroy_def save_wf)
next
  case (OcResume pass)
  with assms show ?thesis by (simp add: flush_resumes_wf)
qed

lemma run_wf: "oc_wf s \<Longrightarrow> passes_wf s \<Longrightarrow> oc_wf (oc_run evs s) \<and> passes_wf (oc_run evs s)"
  by (induction evs arbitrary: s) (simp_all add: step_wf)

lemma loadFromStorage_wf:
  assumes "cacheQueue s = []" and "passes s = []" and "pass_log s = []"
  shows "oc_wf (loadFromStorage s) \<and> passes_wf (loadFromStorage s)"
proof -
  have "cacheQueue (loadFromStorage s) = [] \<and> objs (loadFromStorage s) = objs s \<or>
        (\<exists>cached. cacheQueue (loadFromStorage s) =
             [length (objs s)..<length (objs s) + length cached] \<and>
           objs (loadFromStorage s) = objs s @ cached)"
    using assms(1) by (simp add: loadFromStorage_def split: option.splits stored.splits)
  moreover have "passes (loadFromStorage s) = []" "pass_log (loadFromStorage s) = []"
    using assms(2,3) by (simp_all add: loadFromStorage_def split: option.splits stored.splits)
  ultimately show ?thesis by (auto simp: oc_wf_def passes_wf_def)
qed

lemma new_wf:
  "oc_wf (OfflineCache_new cfg sender nav storage) \<and>
   passes_wf (OfflineCache_new cfg sender nav storage)"
  unfolding OfflineCache_new_def by (rule loadFromStorage_wf) simp_all

lemma reach_wf:
  "oc_wf (oc_run evs (OfflineCache_new cfg sender nav storage))"
  "passes_wf (oc_run evs (OfflineCache_new cfg sender nav storage))"
  using run_wf [OF conjunct1 [OF new_wf] conjunct2 [OF new_wf]] by blast+

lemma old_log:
  assumes "passes_wf s" and "passes_started s \<le> pass"
  shows "attempts_by pass (pass_log s) = []" "persists_by pass (pass_log s) = 0"
    "entries_by pass (pass_log s) = []" "pass \<notin> fp_id ` set (passes s)"
proof -
  from assms have "\<forall>e \<in> set (pass_log s). entry_pass e \<noteq> pass"
    by (auto simp: passes_wf_def)
  then show "attempts_by pass (pass_log s) = []" "persists_by pass (pass_log s) = 0"
    "entries_by pass (pass_log s) = []"
    by (simp_all add: attempts_by_other persists_by_other entries_by_other)
  from assms show "pass \<notin> fp_id ` set (passes s)" by (auto simp: passes_wf_def)
qed

lemma find_append_other:
  "fp_id p \<noteq> pass \<Longrightarrow> find (\<lambda>q. fp_id q = pass) (ps @ [p]) = find (\<lambda>q. fp_id q = pass) ps"
  by (induction ps) auto

lemma find_remove1_other:
  "fp_id p \<noteq> pass \<Longrightarrow> find (\<lambda>q. fp_id q = pass) (remove1 p ps) = find (\<lambda>q. fp_id q = pass) ps"
  by (induction ps) auto

lemma find_append_new:
  "pass \<notin> fp_id ` set ps \<Longrightarrow> fp_id p = pass \<Longrightarrow> find (\<lambda>q. fp_id q = pass) (ps @ [p]) = Some p"
  by (induction ps) auto

lemma new_entries:
  assumes "\<forall>e \<in> set new. entry_pass e = pass" and "new \<noteq> []"
  shows "entries_by pass (es @ new) \<noteq> []" "last (entries_by pass (es @ new)) = last new"
  using assms by (simp_all add: entries_by_append entries_by_same)

lemma flush_tracks:
  assumes wf: "oc_wf s" and pwf: "passes_wf s" and ne: "cacheQueue s \<noteq> []"
  shows "pass_tracks (passes_started s) (cacheQueue s) (OfflineCache_flush s)"
proof -
  let ?P = "passes_started s"
  let ?s0 = "s\<lparr>passes_started := passes_started s + 1\<rparr>"
  let ?t = "OfflineCache_flush s"
  from OfflineCache_flush_char [OF wf ne] obtain new where
    a: "pass_acts ?P (cacheQueue s) new ?s0 ?t" and
    g: "pass_goes_on ?P (cacheQueue s) new ?s0 ?t" by blast
  note old = old_log [OF pwf order_refl]
  from a have lg: "pass_log ?t = pass_log s @ new" "\<forall>e \<in> set new. entry_pass e = ?P"
    by (simp_all add: pass_acts_def)
  have at: "attempts_by ?P (pass_log ?t) = attempts_by ?P new"
    "persists_by ?P (pass_log ?t) = persists_by ?P new"
    by (simp_all add: lg attempts_by_append persists_by_append old)
  from g show ?thesis
    unfolding pass_goes_on_def
  proof (elim conjE disjE exE)
    fix p pre
    assume "passes ?t = passes ?s0 @ [p]" "fp_id p = ?P" "cacheQueue s = pre @ fp_rest p"
      "pre \<noteq> []" "last pre = fp_awaited p" "attempts_by ?P new = pre" "persists_by ?P new = 0"
    then show ?thesis
      using old(4) by (simp add: pass_tracks_def at find_append_new)
  next
    assume "passes ?t = passes ?s0" "attempts_by ?P new = cacheQueue s" "persists_by ?P new = 1"
      "new \<noteq> []" "last new = Persist ?P"
    moreover have "entries_by ?P (pass_log ?t) \<noteq> []"
      "last (entries_by ?P (pass_log ?t)) = last new"
      using new_entries [OF lg(2) \<open>new \<noteq> []\<close>, of "pass_log s"] by (simp_all add: lg(1))
    ultimately show ?thesis
      using old(4) by (simp add: pass_tracks_def at find_pass_None [THEN iffD2])
  qed
qed

lemma resume_tracks:
  assumes wf: "oc_wf s" and pwf: "passes_wf s" and tr: "pass_tracks pass copy s"
  shows "pass_tracks pass copy (flush_resumes pass s)"
proof (cases "find (\<lambda>q. fp_id q = pass) (passes s)")
  case None
  with tr show ?thesis by (simp add: flush_resumes_def)
next
  case (Some p)
  let ?s1 = "s\<lparr>passes := remove1 p (passes s)\<rparr>"
  let ?s2 = "fst (settle pass (fp_awaited p) (\<not> fp_rejects p) (fp_failed p) ?s1)"
  let ?t = "flush_resumes pass s"
  from flush_resumes_char [OF wf pwf Some] obtain new where
    a: "pass_acts pass (fp_awaited p # fp_rest p)
          ([Settle pass (fp_awaited p) (\<not> fp_rejects p)] @ new) s ?t" and
    g: "pass_goes_on pass (fp_rest p) new ?s2 ?t" by blast
  from find_pass_Some [OF Some] have pin: "p \<in> set (passes s)" "fp_id p = pass" by simp_all
  from pwf have dp: "distinct (map fp_id (passes s))" by (simp add: passes_wf_def)
  note rm = remove1_pass [OF dp pin(1)]
  have gone: "pass \<notin> fp_id ` set (remove1 p (passes s))" using rm(1) pin(2) by simp
  from a have lg: "pass_log ?t = pass_log s @ [Settle pass (fp_awaited p) (\<not> fp_rejects p)] @ new"
    "\<forall>e \<in> set new. entry_pass e = pass"
    by (simp_all add: pass_acts_def)
  have at: "attempts_by pass (pass_log ?t) = attempts_by pass (pass_log s) @ attempts_by pass new"
    "persists_by pass (pass_log ?t) = persists_by pass (pass_log s) + persists_by pass new"
    by (simp_all add: lg attempts_by_append persists_by_def)
  from tr Some have old: "copy = attempts_by pass (pass_log s) @ fp_rest p"
    "persists_by pass (pass_log s) = 0"
    by (simp_all add: pass_tracks_def)
  have p2: "passes ?s2 = remove1 p (passes s)" by (simp add: settle_frame)
  from g show ?thesis
    unfolding pass_goes_on_def p2
  proof (elim conjE disjE exE)
    fix p' pre
    assume "passes ?t = remove1 p (passes s) @ [p']" "fp_id p' = pass" "fp_rest p = pre @ fp_rest p'"
      "pre \<noteq> []" "last pre = fp_awaited p'" "attempts_by pass new = pre" "persists_by pass new = 0"
    then show ?thesis
      using gone old by (simp add: pass_tracks_def at find_append_new)
  next
    assume "passes ?t = remove1 p (passes s)" "attempts_by pass new = fp_rest p"
      "persists_by pass new = 1" "new \<noteq> []" "last new = Persist pass"
    moreover have "entries_by pass (pass_log ?t) \<noteq> []"
      "last (entries_by pass (pass_log ?t)) = last new"
      using new_entries [OF lg(2) \<open>new \<noteq> []\<close>,
          of "pass_log s @ [Settle pass (fp_awaited p) (\<not> fp_rejects p)]"]
      by (simp_all add: lg(1))
    ultimately show ?thesis
      using gone old by (simp add: pass_tracks_def at find_pass_None [THEN iffD2])
  qed
qed

lemma tracks_other:
  assumes "pass_log t = pass_log s @ new" and "\<forall>e \<in> set new. entry_pass e = q" and "q \<noteq> pass"
    and "find (\<lambda>p. fp_id p = pass) (passes t) = find (\<lambda>p. fp_id p = pass) (passes s)"
  shows "pass_tracks pass copy t = pass_tracks pass copy s"
proof -
  from assms(2,3) have "\<forall>e \<in> set new. entry_pass e \<noteq> pass" by auto
  then have "attempts_by pass new = []" "persists_by pass new = 0" "entries_by pass new = []"
    by (simp_all add: attempts_by_other persists_by_other entries_by_other)
  then show ?thesis
    by (simp add: pass_tracks_def assms(1,4) attempts_by_append persists_by_append
          entries_by_append split: option.splits)
qed

lemma tracks_same:
  "passes t = passes s \<Longrightarrow> pass_log t = pass_log s \<Longrightarrow>
   pass_tracks pass copy t = pass_tracks pass copy s"
  by (simp add: pass_tracks_def split: option.splits)

lemma flush_tracks_other:
  assumes wf: "oc_wf s" and pwf: "passes_wf s" and lt: "pass < passes_started s"
  shows "pass_tracks pass copy (OfflineCache_flush s) = pass_tracks pass copy s"
proof (cases "cacheQueue s = []")
  case True
  then show ?thesis by (simp add: OfflineCache_flush_def)
next
  case False
  let ?P = "passes_started s"
  let ?s0 = "s\<lparr>passes_started := passes_started s + 1\<rparr>"
  let ?t = "OfflineCache_flush s"
  from OfflineCache_flush_char [OF wf False] obtain new where
    a: "pass_acts ?P (cacheQueue s) new ?s0 ?t" and
    g: "pass_goes_on ?P (cacheQueue s) new ?s0 ?t" by blast
  from a have lg: "pass_log ?t = pass_log s @ new" "\<forall>e \<in> set new. entry_pass e = ?P"
    by (simp_all add: pass_acts_def)
  have f: "find (\<lambda>p. fp_id p = pass) (passes ?t) = find (\<lambda>p. fp_id p = pass) (passes s)"
    using g lt unfolding pass_goes_on_def by (auto simp: find_append_other)
  from lt have "?P \<noteq> pass" by simp
  then show ?thesis by (rule tracks_other [OF lg(1) lg(2) _ f])
qed

lemma resume_tracks_other:
  assumes wf: "oc_wf s" and pwf: "passes_wf s" and ne: "q \<noteq> pass"
  shows "pass_tracks pass copy (flush_resumes q s) = pass_tracks pass copy s"
proof (cases "find (\<lambda>p. fp_id p = q) (passes s)")
  case None
  then show ?thesis by (simp add: flush_resumes_def)
next
  case (Some p)
  let ?s1 = "s\<lparr>passes := remove1 p (passes s)\<rparr>"
  let ?s2 = "fst (settle q (fp_awaited p) (\<not> fp_rejects p) (fp_failed p) ?s1)"
  let ?t = "flush_resumes q s"
  from flush_resumes_char [OF wf pwf Some] obtain new where
    a: "pass_acts q (fp_awaited p # fp_rest p)
          ([Settle q (fp_awaited p) (\<not> fp_rejects p)] @ new) s ?t" and
    g: "pass_goes_on q (fp_rest p) new ?s2 ?t" by blast
  from find_pass_Some [OF Some] have pin: "p \<in> set (passes s)" "fp_id p = q" by simp_all
  from a have lg: "pass_log ?t = pass_log s @ ([Settle q (fp_awaited p) (\<not> fp_rejects p)] @ new)"
    "\<forall>e \<in> set ([Settle q (fp_awaited p) (\<not> fp_rejects p)] @ new). entry_pass e = q"
    by (simp_all add: pass_acts_def)
  have p2: "passes ?s2 = remove1 p (passes s)" by (simp add: settle_frame)
  have f: "find (\<lambda>p. fp_id p = pass) (passes ?t) = find (\<lambda>p. fp_id p = pass) (passes s)"
    using g ne pin(2) unfolding pass_goes_on_def p2
    by (auto simp: find_append_other find_remove1_other)
  show ?thesis by (rule tracks_other [OF lg(1) lg(2) ne f])
qed

lemma step_tracks:
  assumes wf: "oc_wf s" and pwf: "passes_wf s" and lt: "pass < passes_started s"
    and tr: "pass_tracks pass copy s"
  shows "pass_tracks pass copy (oc_step e s)"
proof (cases e)
  case (OcCache r now)
  with tr show ?thesis
    using tracks_same [of "OfflineCache_cache r now s" s] by (simp add: cache_frame)
next
  case (OcSend r now)
  with tr show ?thesis
    using tracks_same [of "OfflineCache_cache r now s" s]
      tracks_same [of "s\<lparr>oc_sent := oc_sent s @ [r]\<rparr>" s]
    by (simp add: OfflineCache_send_def oc_call_sender_def cache_frame)
next
  case OcOnline
  let ?s = "s\<lparr>isOnline := True,
          oc_console := oc_console s @ [''[OfflineCache] Network restored, flushing cache...'']\<rparr>"
  have "oc_wf ?s" "passes_wf ?s" "pass < passes_started ?s"
    using assms by (simp_all add: oc_wf_def passes_wf_def)
  moreover have "pass_tracks pass copy ?s" using tr tracks_same [of ?s s] by simp
  ultimately show ?thesis using OcOnline by (simp add: handleOnline_def flush_tracks_other)
next
  case OcOffline
  with tr show ?thesis
    using tracks_same [of "handleOffline s" s] by (simp add: handleOffline_def)
next
  case OcFlush
  with assms show ?thesis by (simp add: flush_tracks_other)
next
  case OcClear
  with tr show ?thesis
    using tracks_same [of "OfflineCache_clear s" s]
    by (simp add: OfflineCache_clear_def saveToStorage_frame)
next
  case OcDestroy
  with tr show ?thesis
    using tracks_same [of "OfflineCache_destroy s" s]
    by (simp add: OfflineCache_destroy_def saveToStorage_frame)
next
  case (OcResume q)
  with assms show ?thesis
    by (cases "q = pass") (simp_all add: resume_tracks resume_tracks_other)
qed

lemma started_mono_step: 
  assumes "oc_wf s" and "passes_wf s"
  shows "passes_started s \<le> passes_started (oc_step e s)"
proof (cases e)
  case OcOnline
  let ?s = "s\<lparr>isOnline := True,
          oc_console := oc_console s @ [''[OfflineCache] Network restored, flushing cache...'']\<rparr>"
  have w: "oc_wf ?s" using assms by (simp add: oc_wf_def)
  show ?thesis
  proof (cases "cacheQueue s = []")
    case True
    with OcOnline show ?thesis by (simp add: handleOnline_def OfflineCache_flush_def)
  next
    case False
    then have "cacheQueue ?s \<noteq> []" by simp
    from OfflineCache_flush_char [OF w this] OcOnline show ?thesis
      by (auto simp: handleOnline_def pass_acts_def)
  qed
next
  case OcFlush
  show ?thesis
  proof (cases "cacheQueue s = []")
    case True
    with OcFlush show ?thesis by (simp add: OfflineCache_flush_def)
  next
    case False
    from OfflineCache_flush_char [OF assms(1) False] OcFlush show ?thesis
      by (auto simp: pass_acts_def)
  qed
next
  case (OcResume q)
  show ?thesis
  proof (cases "find (\<lambda>p. fp_id p = q) (passes s)")
    case None
    with OcResume show ?thesis by (simp add: flush_resumes_def)
  next
    case (Some p)
    from flush_resumes_char [OF assms Some] OcResume show ?thesis
      by (auto simp: pass_acts_def)
  qed
qed (simp_all add: cache_frame OfflineCache_send_def oc_call_sender_def handleOffline_def
       OfflineCache_clear_def OfflineCache_destroy_def saveToStorage_frame)

lemma run_tracks:
  "oc_wf s \<Longrightarrow> passes_wf s \<Longrightarrow> pass < passes_started s \<Longrightarrow> pass_tracks pass copy s \<Longrightarrow>
   pass_tracks pass copy (oc_run evs s)"
proof (induction evs arbitrary: s)
  case Nil
  then show ?case by simp
next
  case (Cons e evs)
  from step_wf [OF Cons.prems(1,2), of e] step_tracks [OF Cons.prems, of e]
    started_mono_step [OF Cons.prems(1,2), of e] Cons.prems(3)
  show ?case by (simp add: Cons.IH)
qed

lemma to_go_pending: "to_go pass s = 0 \<longleftrightarrow> \<not> pending pass s"
  by (simp add: to_go_def pending_def find_pass_None [symmetric] split: option.splits)

lemma flush_to_go:
  assumes wf: "oc_wf s" and pwf: "passes_wf s"
  shows "to_go (passes_started s) (OfflineCache_flush s) \<le> length (cacheQueue s)"
proof (cases "cacheQueue s = []")
  case True
  with old_log(4) [OF pwf order_refl] show ?thesis
    by (simp add: OfflineCache_flush_def to_go_def find_pass_None [THEN iffD2])
next
  case False
  let ?P = "passes_started s"
  let ?s0 = "s\<lparr>passes_started := passes_started s + 1\<rparr>"
  from OfflineCache_flush_char [OF wf False] obtain new where
    g: "pass_goes_on ?P (cacheQueue s) new ?s0 (OfflineCache_flush s)" by blast
  note old = old_log(4) [OF pwf order_refl]
  from g show ?thesis
    unfolding pass_goes_on_def
  proof (elim conjE disjE exE)
    fix p pre
    assume "passes (OfflineCache_flush s) = passes ?s0 @ [p]" "fp_id p = ?P"
      "cacheQueue s = pre @ fp_rest p" "pre \<noteq> []"
    then show ?thesis
      using old by (cases pre) (simp_all add: to_go_def find_append_new)
  next
    assume "passes (OfflineCache_flush s) = passes ?s0"
    then show ?thesis
      using old by (simp add: to_go_def find_pass_None [THEN iffD2])
  qed
qed

lemma resume_to_go:
  assumes wf: "oc_wf s" and pwf: "passes_wf s"
  shows "to_go pass (flush_resumes pass s) \<le> to_go pass s - 1"
proof (cases "find (\<lambda>q. fp_id q = pass) (passes s)")
  case None
  then show ?thesis by (simp add: flush_resumes_def to_go_def)
next
  case (Some p)
  let ?s1 = "s\<lparr>passes := remove1 p (passes s)\<rparr>"
  let ?s2 = "fst (settle pass (fp_awaited p) (\<not> fp_rejects p) (fp_failed p) ?s1)"
  let ?t = "flush_resumes pass s"
  from flush_resumes_char [OF wf pwf Some] obtain new where
    g: "pass_goes_on pass (fp_rest p) new ?s2 ?t" by blast
  from find_pass_Some [OF Some] have pin: "p \<in> set (passes s)" "fp_id p = pass" by simp_all
  from pwf have dp: "distinct (map fp_id (passes s))" by (simp add: passes_wf_def)
  note rm = remove1_pass [OF dp pin(1)]
  have gone: "pass \<notin> fp_id ` set (remove1 p (passes s))" using rm(1) pin(2) by simp
  have p2: "passes ?s2 = remove1 p (passes s)" by (simp add: settle_frame)
  have now: "to_go pass s = Suc (length (fp_rest p))" by (simp add: to_go_def Some)
  from g show ?thesis
    unfolding pass_goes_on_def p2
  proof (elim conjE disjE exE)
    fix p' pre
    assume "passes ?t = remove1 p (passes s) @ [p']" "fp_id p' = pass" "fp_rest p = pre @ fp_rest p'"
      "pre \<noteq> []"
    then show ?thesis
      using gone now by (cases pre) (simp_all add: to_go_def find_append_new)
  next
    assume "passes ?t = remove1 p (passes s)"
    then show ?thesis
      using gone by (simp add: to_go_def find_pass_None [THEN iffD2])
  qed
qed

lemma resumes_finish:
  "oc_wf s \<Longrightarrow> passes_wf s \<Longrightarrow> to_go pass s \<le> n \<Longrightarrow>
   \<not> pending pass (oc_run (replicate n (OcResume pass)) s)"
proof (induction n arbitrary: s)
  case 0
  then show ?case by (simp add: to_go_pending)
next
  case (Suc n)
  from resume_to_go [OF Suc.prems(1,2), of pass] Suc.prems(3)
  have "to_go pass (flush_resumes pass s) \<le> n" by simp
  with flush_resumes_wf [OF Suc.prems(1,2), of pass] show ?case
    by (simp add: Suc.IH)
qed

lemma pass_goes_on_attempts:
  "pass_goes_on pass rest new s t \<Longrightarrow> set (attempts_by pass new) \<subseteq> set rest"
  unfolding pass_goes_on_def by auto

lemma pass_goes_on_pending:
  assumes "pass_goes_on pass rest new s t" and "pass \<notin> fp_id ` set (passes s)"
  shows "pending pass t \<longleftrightarrow> passes t \<noteq> passes s"
  using assms unfolding pass_goes_on_def pending_def by auto

lemma flush_step:
  assumes wf: "oc_wf s" and pwf: "passes_wf s" and ne: "cacheQueue s \<noteq> []"
  shows "oc_sent (OfflineCache_flush s) =
           oc_sent s @ map (\<lambda>a. c_report (objs s ! a))
                         (attempts_by (passes_started s) (pass_log (OfflineCache_flush s)))"
    and "oc_writes (OfflineCache_flush s) =
           (if pending (passes_started s) (OfflineCache_flush s) then oc_writes s
            else case localStorage s of
                   None \<Rightarrow> oc_writes s
                 | Some ls \<Rightarrow> if setItem_throws ls then oc_writes s
                     else oc_writes s @ [(storageKey (oc_config s), cached (OfflineCache_flush s))])"
proof -
  let ?P = "passes_started s"
  let ?s0 = "s\<lparr>passes_started := passes_started s + 1\<rparr>"
  let ?t = "OfflineCache_flush s"
  from OfflineCache_flush_char [OF wf ne] obtain new where
    a: "pass_acts ?P (cacheQueue s) new ?s0 ?t" and
    g: "pass_goes_on ?P (cacheQueue s) new ?s0 ?t" by blast
  note old = old_log [OF pwf order_refl]
  from a have lg: "pass_log ?t = pass_log s @ new" by (simp add: pass_acts_def)
  have at: "attempts_by ?P (pass_log ?t) = attempts_by ?P new"
    by (simp add: lg attempts_by_append old)
  from g show "oc_sent ?t = oc_sent s @ map (\<lambda>a. c_report (objs s ! a)) (attempts_by ?P (pass_log ?t))"
    by (simp add: pass_goes_on_def at)
  have "pending ?P ?t \<longleftrightarrow> passes ?t \<noteq> passes ?s0"
    by (rule pass_goes_on_pending [OF g]) (use old(4) in simp)
  with g show "oc_writes ?t =
           (if pending ?P ?t then oc_writes s
            else case localStorage s of
                   None \<Rightarrow> oc_writes s
                 | Some ls \<Rightarrow> if setItem_throws ls then oc_writes s
                     else oc_writes s @ [(storageKey (oc_config s), cached ?t)])"
    unfolding pass_goes_on_def by (auto split: option.splits)
qed

lemma resume_step:
  assumes wf: "oc_wf s" and pwf: "passes_wf s"
  shows "oc_sent (flush_resumes pass s) =
           oc_sent s @ map (\<lambda>a. c_report (objs s ! a))
                         (drop (length (attempts_by pass (pass_log s)))
                            (attempts_by pass (pass_log (flush_resumes pass s))))"
    and "oc_writes (flush_resumes pass s) =
           (if pending pass s \<and> \<not> pending pass (flush_resumes pass s)
            then case localStorage s of
                   None \<Rightarrow> oc_writes s
                 | Some ls \<Rightarrow> if setItem_throws ls then oc_writes s
                     else oc_writes s @ [(storageKey (oc_config s), cached (flush_resumes pass s))]
            else oc_writes s)"
proof -
  let ?t = "flush_resumes pass s"
  have "oc_sent ?t =
           oc_sent s @ map (\<lambda>a. c_report (objs s ! a))
                         (drop (length (attempts_by pass (pass_log s)))
                            (attempts_by pass (pass_log ?t))) \<and>
        oc_writes ?t =
           (if pending pass s \<and> \<not> pending pass ?t
            then case localStorage s of
                   None \<Rightarrow> oc_writes s
                 | Some ls \<Rightarrow> if setItem_throws ls then oc_writes s
                     else oc_writes s @ [(storageKey (oc_config s), cached ?t)]
            else oc_writes s)"
  proof (cases "find (\<lambda>q. fp_id q = pass) (passes s)")
    case None
    then have "?t = s" by (simp add: flush_resumes_def)
    then show ?thesis by simp
  next
    case (Some p)
    let ?s1 = "s\<lparr>passes := remove1 p (passes s)\<rparr>"
    let ?s2 = "fst (settle pass (fp_awaited p) (\<not> fp_rejects p) (fp_failed p) ?s1)"
    from flush_resumes_char [OF wf pwf Some] obtain new where
      a: "pass_acts pass (fp_awaited p # fp_rest p)
            ([Settle pass (fp_awaited p) (\<not> fp_rejects p)] @ new) s ?t" and
      g: "pass_goes_on pass (fp_rest p) new ?s2 ?t" by blast
    from find_pass_Some [OF Some] have pin: "p \<in> set (passes s)" "fp_id p = pass" by simp_all
    from pwf pin have pv: "\<forall>a \<in> set (fp_awaited p # fp_rest p). a < length (objs s)"
      and dp: "distinct (map fp_id (passes s))"
      unfolding passes_wf_def by blast+
    note rm = remove1_pass [OF dp pin(1)]
    have gone: "pass \<notin> fp_id ` set (passes ?s2)" using rm(1) pin(2) by (simp add: settle_frame)
    have pend: "pending pass s" using pin by (auto simp: pending_def)
    have st: "pass_acts pass [fp_awaited p] [Settle pass (fp_awaited p) (\<not> fp_rejects p)] ?s1 ?s2"
      by (rule settle_acts) (use pv wf in \<open>simp_all add: oc_wf_def\<close>)
    have fr: "oc_sent ?s2 = oc_sent s" "oc_writes ?s2 = oc_writes s"
      "localStorage ?s2 = localStorage s" "oc_config ?s2 = oc_config s"
      using st by (simp_all add: settle_frame pass_acts_def)
    have rep: "map (\<lambda>a. c_report (objs ?s2 ! a)) xs = map (\<lambda>a. c_report (objs s ! a)) xs"
      if "set xs \<subseteq> set (fp_rest p)" for xs
      using that pv pass_acts_report [OF st] by (intro map_cong refl) auto
    from a have lg: "pass_log ?t = pass_log s @ [Settle pass (fp_awaited p) (\<not> fp_rejects p)] @ new"
      by (simp add: pass_acts_def)
    have at: "drop (length (attempts_by pass (pass_log s))) (attempts_by pass (pass_log ?t)) =
                attempts_by pass new"
      by (simp add: lg attempts_by_append)
    have 1: "oc_sent ?t = oc_sent s @ map (\<lambda>a. c_report (objs s ! a)) (attempts_by pass new)"
      using g rep [OF pass_goes_on_attempts [OF g]] by (simp add: pass_goes_on_def fr)
    have "pending pass ?t \<longleftrightarrow> passes ?t \<noteq> passes ?s2"
      by (rule pass_goes_on_pending [OF g gone])
    with g pend have 2: "oc_writes ?t =
           (if pending pass s \<and> \<not> pending pass ?t
            then case localStorage s of
                   None \<Rightarrow> oc_writes s
                 | Some ls \<Rightarrow> if setItem_throws ls then oc_writes s
                     else oc_writes s @ [(storageKey (oc_config s), cached ?t)]
            else oc_writes s)"
      unfolding pass_goes_on_def fr by (auto split: option.splits)
    from 1 2 show ?thesis unfolding at by simp
  qed
  then show "oc_sent ?t =
           oc_sent s @ map (\<lambda>a. c_report (objs s ! a))
                         (drop (length (attempts_by pass (pass_log s)))
                            (attempts_by pass (pass_log ?t)))"
    and "oc_writes ?t =
           (if pending pass s \<and> \<not> pending pass ?t
            then case localStorage s of
                   None \<Rightarrow> oc_writes s
                 | Some ls \<Rightarrow> if setItem_throws ls then oc_writes s
                     else oc_writes s @ [(storageKey (oc_config s), cached ?t)]
            else oc_writes s)" by blast+
qed

lemma pending_find: "pending pass t \<longleftrightarrow> find (\<lambda>p. fp_id p = pass) (passes t) \<noteq> None"
  by (simp add: pending_def find_pass_None)

lemma tracks_pending:
  assumes "pass_tracks pass copy t"
  shows "attempts_by pass (pass_log t) = take (length (attempts_by pass (pass_log t))) copy"
    and "pending pass t \<Longrightarrow> attempts_by pass (pass_log t) \<noteq> [] \<and> persists_by pass (pass_log t) = 0"
    and "\<not> pending pass t \<Longrightarrow>
           attempts_by pass (pass_log t) = copy \<and> persists_by pass (pass_log t) = 1 \<and>
           last (entries_by pass (pass_log t)) = Persist pass"
proof -
  show "attempts_by pass (pass_log t) = take (length (attempts_by pass (pass_log t))) copy"
    using assms by (auto simp: pass_tracks_def split: option.splits)
  show "attempts_by pass (pass_log t) \<noteq> [] \<and> persists_by pass (pass_log t) = 0" if "pending pass t"
    using assms that
    by (auto simp: pass_tracks_def pending_find split: option.splits)
  show "attempts_by pass (pass_log t) = copy \<and> persists_by pass (pass_log t) = 1 \<and>
           last (entries_by pass (pass_log t)) = Persist pass" if "\<not> pending pass t"
    using assms that
    by (auto simp: pass_tracks_def pending_find split: option.splits)
qed

lemmas oc_eval =
  OfflineCache_new_def loadFromStorage_def OfflineCache_send_def OfflineCache_cache_def
  saveToStorage_def OfflineCache_flush_def flush_resumes_def settle_def oc_call_sender_def
  handleOnline_def handleOffline_def cached_def pending_def persists_by_def entries_by_def
  failures_def delivered_def Let_def

text \<open>
  Claim C8, as the code has it. In any state the cache can reach, the handler of the
  \<open>online\<close> event sets \<open>isOnline\<close>, logs a line and calls \<open>flush\<close>, for whose promise
  it does not wait. On an empty queue that is all: no pass begins, the sender is not
  called and nothing is saved. Otherwise exactly one pass begins. Whatever happens to
  the cache afterwards, other calls and other passes included (\<open>later\<close> is any sequence
  of events), that pass calls the sender for the items of the copy it took of the queue,
  oldest first and each at most once: the attempts it has made are at any time an
  initial part of the copy. While it is suspended it has not called \<open>saveToStorage\<close>;
  once it is over it has attempted the whole copy and has called \<open>saveToStorage\<close>
  exactly once, as its last action. The sender calls of each step of the pass are the
  attempts that step adds, and the step that ends the pass, and no other step of it,
  writes the queue as it then is, provided \<open>localStorage\<close> exists and \<open>setItem\<close> does
  not throw. The pass is over after at most as many continuations as its copy has
  items. The handler of the \<open>offline\<close> event only clears \<open>isOnline\<close> (and logs a line).
\<close>

theorem handleOnline_retry_pass:
  "let s = oc_run evs (OfflineCache_new cfg sender nav storage);
       pass = passes_started s;
       s' = handleOnline s;
       t = oc_run later s';
       t' = flush_resumes pass t
   in isOnline s' \<and>
      (cacheQueue s = [] \<longrightarrow> s' = s\<lparr>isOnline := True, oc_console := oc_console s'\<rparr>) \<and>
      (cacheQueue s \<noteq> [] \<longrightarrow>
         passes_started s' = pass + 1 \<and>
         oc_sent s' =
           oc_sent s @ map (\<lambda>a. c_report (objs s ! a)) (attempts_by pass (pass_log s')) \<and>
         oc_writes s' =
           (if pending pass s' then oc_writes s
            else case localStorage s of
                   None \<Rightarrow> oc_writes s
                 | Some ls \<Rightarrow> if setItem_throws ls then oc_writes s
                     else oc_writes s @ [(storageKey (oc_config s), cached s')]) \<and>
         attempts_by pass (pass_log t) =
           take (length (attempts_by pass (pass_log t))) (cacheQueue s) \<and>
         (pending pass t \<longrightarrow>
            attempts_by pass (pass_log t) \<noteq> [] \<and> persists_by pass (pass_log t) = 0) \<and>
         (\<not> pending pass t \<longrightarrow>
            attempts_by pass (pass_log t) = cacheQueue s \<and> persists_by pass (pass_log t) = 1 \<and>
            last (entries_by pass (pass_log t)) = Persist pass) \<and>
         oc_sent t' =
           oc_sent t @ map (\<lambda>a. c_report (objs t ! a))
                         (drop (length (attempts_by pass (pass_log t)))
                            (attempts_by pass (pass_log t'))) \<and>
         oc_writes t' =
           (if pending pass t \<and> \<not> pending pass t'
            then case localStorage t of
                   None \<Rightarrow> oc_writes t
                 | Some ls \<Rightarrow> if setItem_throws ls then oc_writes t
                     else oc_writes t @ [(storageKey (oc_config t), cached t')]
            else oc_writes t) \<and>
         \<not> pending pass (oc_run (replicate (length (cacheQueue s)) (OcResume pass)) s')) \<and>
      handleOffline s = s\<lparr>isOnline := False, oc_console := oc_console (handleOffline s)\<rparr>"
proof -
  define s where "s = oc_run evs (OfflineCache_new cfg sender nav storage)"
  define pass where "pass = passes_started s"
  define s0 where "s0 = s\<lparr>isOnline := True,
          oc_console := oc_console s @ [''[OfflineCache] Network restored, flushing cache...'']\<rparr>"
  define s' where "s' = handleOnline s"
  define t where "t = oc_run later s'"
  define t' where "t' = flush_resumes pass t"
  have wf: "oc_wf s" "passes_wf s" unfolding s_def by (rule reach_wf)+
  then have wf0: "oc_wf s0" "passes_wf s0" by (simp_all add: s0_def oc_wf_def passes_wf_def)
  have s0: "cacheQueue s0 = cacheQueue s" "oc_sent s0 = oc_sent s" "objs s0 = objs s"
    "oc_writes s0 = oc_writes s" "localStorage s0 = localStorage s" "oc_config s0 = oc_config s"
    "passes_started s0 = pass" "isOnline s0"
    by (simp_all add: s0_def pass_def)
  have h: "s' = OfflineCache_flush s0" by (simp add: s'_def handleOnline_def s0_def)
  have wf': "oc_wf s'" "passes_wf s'" unfolding h using flush_wf [OF wf0] by blast+
  have wft: "oc_wf t" "passes_wf t" unfolding t_def using run_wf [OF wf'] by blast+
  have empty: "s' = s\<lparr>isOnline := True, oc_console := oc_console s'\<rparr>" if "cacheQueue s = []"
    using that by (simp add: h OfflineCache_flush_def s0_def)
  have online: "isOnline s'"
  proof (cases "cacheQueue s = []")
    case True
    then show ?thesis by (simp add: h OfflineCache_flush_def s0_def)
  next
    case False
    then have "cacheQueue s0 \<noteq> []" by (simp add: s0)
    from OfflineCache_flush_char [OF wf0(1) this] show ?thesis
      unfolding h by (auto simp: pass_acts_def s0)
  qed
  have main: "passes_started s' = pass + 1 \<and>
         oc_sent s' =
           oc_sent s @ map (\<lambda>a. c_report (objs s ! a)) (attempts_by pass (pass_log s')) \<and>
         oc_writes s' =
           (if pending pass s' then oc_writes s
            else case localStorage s of
                   None \<Rightarrow> oc_writes s
                 | Some ls \<Rightarrow> if setItem_throws ls then oc_writes s
                     else oc_writes s @ [(storageKey (oc_config s), cached s')]) \<and>
         attempts_by pass (pass_log t) =
           take (length (attempts_by pass (pass_log t))) (cacheQueue s) \<and>
         (pending pass t \<longrightarrow>
            attempts_by pass (pass_log t) \<noteq> [] \<and> persists_by pass (pass_log t) = 0) \<and>
         (\<not> pending pass t \<longrightarrow>
            attempts_by pass (pass_log t) = cacheQueue s \<and> persists_by pass (pass_log t) = 1 \<and>
            last (entries_by pass (pass_log t)) = Persist pass) \<and>
         \<not> pending pass (oc_run (replicate (length (cacheQueue s)) (OcResume pass)) s')"
    if ne: "cacheQueue s \<noteq> []"
  proof -
    from ne have ne0: "cacheQueue s0 \<noteq> []" by (simp add: s0)
    from OfflineCache_flush_char [OF wf0(1) ne0] have st: "passes_started s' = pass + 1"
      unfolding h by (auto simp: pass_acts_def s0)
    note fs = flush_step [OF wf0 ne0, folded h, unfolded s0]
    have "pass_tracks pass (cacheQueue s) s'"
      using flush_tracks [OF wf0 ne0] by (simp add: h s0)
    then have "pass_tracks pass (cacheQueue s) t"
      unfolding t_def by (intro run_tracks wf') (simp_all add: st)
    note tp = tracks_pending [OF this]
    have "to_go pass s' \<le> length (cacheQueue s)"
      using flush_to_go [OF wf0] by (simp add: h s0)
    then have fin: "\<not> pending pass (oc_run (replicate (length (cacheQueue s)) (OcResume pass)) s')"
      by (rule resumes_finish [OF wf'])
    from st fs tp fin show ?thesis by blast
  qed
  note rs = resume_step [OF wft, of pass, folded t'_def]
  have off: "handleOffline s = s\<lparr>isOnline := False, oc_console := oc_console (handleOffline s)\<rparr>"
    by (simp add: handleOffline_def)
  from online empty main rs off show ?thesis
    unfolding Let_def s_def [symmetric] pass_def [symmetric] s'_def [symmetric]
      t_def [symmetric] t'_def [symmetric]
    by blast
qed

text \<open>
  Two reports cached offline, \<open>X\<close> deliverable and \<open>Y\<close> not. The \<open>online\<close> event begins
  pass 0; a second pass is begun by hand before pass 0 goes on, so that each report is
  sent twice. Pass 0 attempts \<open>X\<close> then \<open>Y\<close>, saves nothing while it is suspended, and
  ends with one write of the queue it leaves.
\<close>

theorem handleOnline_retry_pass_witness:
  "cacheQueue two_cached = [0, 1] \<and> \<not> isOnline two_cached \<and>
   isOnline (handleOnline two_cached) \<and> passes_started (handleOnline two_cached) = 1 \<and>
   oc_sent (oc_run [OcFlush, OcResume 1, OcResume 0] (handleOnline two_cached)) =
     [''X'', ''X'', ''Y'', ''Y''] \<and>
   pending 0 (oc_run [OcFlush, OcResume 1, OcResume 0] (handleOnline two_cached)) \<and>
   persists_by 0 (pass_log (oc_run [OcFlush, OcResume 1, OcResume 0] (handleOnline two_cached))) = 0 \<and>
   \<not> pending 0 (oc_run [OcFlush, OcResume 1, OcResume 0, OcResume 0] (handleOnline two_cached)) \<and>
   attempts_by 0 (pass_log (oc_run [OcFlush, OcResume 1, OcResume 0, OcResume 0]
                              (handleOnline two_cached))) = [0, 1] \<and>
   persists_by 0 (pass_log (oc_run [OcFlush, OcResume 1, OcResume 0, OcResume 0]
                              (handleOnline two_cached))) = 1 \<and>
   oc_writes (oc_run [OcFlush, OcResume 1, OcResume 0, OcResume 0] (handleOnline two_cached)) =
     oc_writes (oc_run [OcFlush, OcResume 1, OcResume 0] (handleOnline two_cached)) @
       [(''error_monitor_cache'', [\<lparr>c_report = ''Y'', c_timestamp = 2, retryCount = 1\<rparr>])]"
proof -
  let ?t = "oc_run [OcFlush, OcResume 1, OcResume 0] (handleOnline two_cached)"
  have 1: "cacheQueue two_cached = [0, 1]" "\<not> isOnline two_cached" "passes_started two_cached = 0"
    by (simp_all add: two_cached_def oc_eval default_cache_config_def empty_storage_def)
  have 2: "pending 0 ?t" "oc_sent ?t = [''X'', ''X'', ''Y'', ''Y'']"
    by (simp_all add: two_cached_def oc_eval default_cache_config_def empty_storage_def)
  have 3: "\<not> pending 0 (flush_resumes 0 ?t)"
    "cached (flush_resumes 0 ?t) = [\<lparr>c_report = ''Y'', c_timestamp = 2, retryCount = 1\<rparr>]"
    by (simp_all add: two_cached_def oc_eval default_cache_config_def empty_storage_def)
  have 4: "\<exists>ls. localStorage ?t = Some ls \<and> \<not> setItem_throws ls"
    "storageKey (oc_config ?t) = ''error_monitor_cache''"
    by (simp_all add: two_cached_def oc_eval default_cache_config_def empty_storage_def)
  note th = handleOnline_retry_pass
    [where evs = "[OcSend ''X'' 1, OcSend ''Y'' 2]" and cfg = default_cache_config
       and sender = "\<lambda>n r. if r = ''X'' then Returns else Rejects (HostError ''network'')"
       and nav = "Some False" and storage = "Some empty_storage", folded two_cached_def,
     unfolded Let_def]
  from th [of "[OcFlush, OcResume 1, OcResume 0]"] th [of "[OcFlush, OcResume 1, OcResume 0, OcResume 0]"]
    1 2 3 4
  show ?thesis by auto
qed

text \<open>
  Claim C8 as stated fails on an empty queue: the \<open>online\<close> event received offline,
  with a working \<open>localStorage\<close>, sets \<open>isOnline\<close> and writes nothing.
\<close>

theorem handleOnline_no_persist_counterexample:
  "\<not> isOnline fresh_offline \<and> localStorage fresh_offline = Some empty_storage \<and>
   \<not> setItem_throws empty_storage \<and>
   isOnline (handleOnline fresh_offline) \<and>
   oc_writes (handleOnline fresh_offline) = oc_writes fresh_offline"
  by (simp add: fresh_offline_def oc_eval default_cache_config_def failing_sender_def
        empty_storage_def)



lemma attempts_by_set: "set (attempts_by pass es) = {a. Attempt pass a \<in> set es}"
  by (induction pass es rule: attempts_by.induct) auto















text \<open>
  Two passes in flight at once, as after \<open>flush(); flush()\<close> with a sender that returns
  nothing: each works on its own copy of the queue, so every report is sent twice.
\<close>

lemma overlapping_passes:
  "oc_sent (oc_run [OcSend ''X'' 1, OcSend ''Y'' 2, OcFlush, OcFlush,
                    OcResume 0, OcResume 1, OcResume 0, OcResume 1]
              (OfflineCache_new default_cache_config (\<lambda>n r. Returns) (Some False) None)) =
     [''X'', ''X'', ''Y'', ''Y'']"
  by (simp add: oc_eval default_cache_config_def)

text \<open>
  A pass in flight still attempts an item of its copy after another pass has dropped
  it: pass 0 drops \<open>X\<close> at its fourth failure, and pass 1, begun before that, calls the
  sender for \<open>X\<close> afterwards.
\<close>

lemma pass_in_flight_attempts_dropped_item:
  "cacheQueue (oc_run [OcFlush, OcFlush, OcResume 0, OcResume 0] (over_W_X False)) = [] \<and>
   retryCount (objs (oc_run [OcFlush, OcFlush, OcResume 0, OcResume 0] (over_W_X False)) ! 1) = 4 \<and>
   oc_sent (oc_run [OcFlush, OcFlush, OcResume 0, OcResume 0, OcResume 1] (over_W_X False)) =
     oc_sent (oc_run [OcFlush, OcFlush, OcResume 0, OcResume 0] (over_W_X False)) @ [''X'']"
  by (simp add: over_W_X_def stored_W_X_def oc_eval default_cache_config_def)

text \<open>
  What was dropped from the queue stays in \<open>localStorage\<close> when the write at the end of
  the pass fails, and the next cache constructed over that storage has it again.
\<close>

lemma dropped_item_recovered_from_storage:
  "cacheQueue (oc_run [OcFlush, OcResume 0, OcResume 0] (over_W_X True)) = [] \<and>
   map c_report
     (cached (OfflineCache_new default_cache_config failing_sender (Some True)
                (localStorage (oc_run [OcFlush, OcResume 0, OcResume 0] (over_W_X True))))) =
     [''W'', ''X'']"
  by (simp add: over_W_X_def stored_W_X_def oc_eval default_cache_config_def)

text \<open>
  Claim C7. In any state, online: \<open>send\<close> calls the sender exactly once, with the
  report, and leaves \<open>localStorage\<close>, the record of writes, the queue and the cached
  objects as they were (it raises what the sender throws). Offline: \<open>send\<close> is
  \<open>cache\<close>, raises nothing and does not call the sender; with caching enabled and a
  positive \<open>maxCacheSize\<close> the report is then the newest item of the queue, with
  \<open>retryCount\<close> 0.
\<close>

theorem OfflineCache_send_frame:
  "(isOnline s \<longrightarrow>
      oc_sent (fst (OfflineCache_send x now s)) = oc_sent s @ [x] \<and>
      snd (OfflineCache_send x now s) =
        (case oc_sender s (length (oc_sent s)) x of Throws e \<Rightarrow> Some e | _ \<Rightarrow> None) \<and>
      localStorage (fst (OfflineCache_send x now s)) = localStorage s \<and>
      oc_writes (fst (OfflineCache_send x now s)) = oc_writes s \<and>
      cacheQueue (fst (OfflineCache_send x now s)) = cacheQueue s \<and>
      objs (fst (OfflineCache_send x now s)) = objs s) \<and>
   (\<not> isOnline s \<longrightarrow>
      OfflineCache_send x now s = (OfflineCache_cache x now s, None) \<and>
      oc_sent (OfflineCache_cache x now s) = oc_sent s \<and>
      (oc_enabled (oc_config s) \<and> 1 \<le> maxCacheSize (oc_config s) \<longrightarrow>
         cached (OfflineCache_cache x now s) \<noteq> [] \<and>
         last (cached (OfflineCache_cache x now s)) =
           \<lparr>c_report = x, c_timestamp = now, retryCount = 0\<rparr>))"
proof -
  have on: "oc_sent (fst (OfflineCache_send x now s)) = oc_sent s @ [x] \<and>
      snd (OfflineCache_send x now s) =
        (case oc_sender s (length (oc_sent s)) x of Throws e \<Rightarrow> Some e | _ \<Rightarrow> None) \<and>
      localStorage (fst (OfflineCache_send x now s)) = localStorage s \<and>
      oc_writes (fst (OfflineCache_send x now s)) = oc_writes s \<and>
      cacheQueue (fst (OfflineCache_send x now s)) = cacheQueue s \<and>
      objs (fst (OfflineCache_send x now s)) = objs s" if "isOnline s"
    using that by (simp add: OfflineCache_send_def oc_call_sender_def)
  have off1: "OfflineCache_send x now s = (OfflineCache_cache x now s, None)" if "\<not> isOnline s"
    using that by (simp add: OfflineCache_send_def)
  have off2: "oc_sent (OfflineCache_cache x now s) = oc_sent s"
    by (simp add: OfflineCache_cache_def Let_def saveToStorage_frame)
  have off3: "cached (OfflineCache_cache x now s) \<noteq> [] \<and>
         last (cached (OfflineCache_cache x now s)) =
           \<lparr>c_report = x, c_timestamp = now, retryCount = 0\<rparr>"
    if en: "oc_enabled (oc_config s)" and m: "1 \<le> maxCacheSize (oc_config s)"
  proof -
    let ?q = "cacheQueue s @ [length (objs s)]"
    let ?q' = "cacheQueue (OfflineCache_cache x now s)"
    note cq = cache_queue [OF en, of x now]
    have "?q' \<noteq> [] \<and> last ?q' = length (objs s)"
    proof (cases "int (length (cacheQueue s)) + 1 > maxCacheSize (oc_config s)")
      case False
      with cq show ?thesis by simp
    next
      case True
      with m have "cacheQueue s \<noteq> []" by auto
      then have "tl ?q \<noteq> [] \<and> last (tl ?q) = length (objs s)"
        by (cases "cacheQueue s") auto
      with True cq show ?thesis by simp
    qed
    then show ?thesis
      using cq by (simp add: cached_def last_map)
  qed
  from on off1 off2 off3 show ?thesis by blast
qed

text \<open>
  The same report sent online (delivered, nothing cached or written) and offline
  (cached, not delivered).
\<close>

theorem OfflineCache_send_frame_witness:
  "isOnline (handleOnline fresh_offline) \<and>
   oc_sent (fst (OfflineCache_send ''X'' 1 (handleOnline fresh_offline))) = [''X''] \<and>
   oc_writes (fst (OfflineCache_send ''X'' 1 (handleOnline fresh_offline))) = [] \<and>
   cacheQueue (fst (OfflineCache_send ''X'' 1 (handleOnline fresh_offline))) = [] \<and>
   \<not> isOnline fresh_offline \<and> oc_enabled (oc_config fresh_offline) \<and>
   1 \<le> maxCacheSize (oc_config fresh_offline) \<and>
   oc_sent (fst (OfflineCache_send ''X'' 1 fresh_offline)) = [] \<and>
   cached (fst (OfflineCache_send ''X'' 1 fresh_offline)) =
     [\<lparr>c_report = ''X'', c_timestamp = 1, retryCount = 0\<rparr>]"
  using OfflineCache_send_frame [of "handleOnline fresh_offline" "''X''" 1]
    OfflineCache_send_frame [of fresh_offline "''X''" 1]
  by (simp add: fresh_offline_def oc_eval default_cache_config_def failing_sender_def
        empty_storage_def)

lemma pass_event_bound:
  assumes wf: "oc_wf s" and pwf: "passes_wf s" and ev: "pass_event e"
  shows "length (cacheQueue (oc_step e s)) \<le> length (cacheQueue s) \<and>
         oc_config (oc_step e s) = oc_config s"
proof -
  have fl: "length (cacheQueue (OfflineCache_flush u)) \<le> length (cacheQueue u) \<and>
            oc_config (OfflineCache_flush u) = oc_config u" if "oc_wf u" for u
  proof (cases "cacheQueue u = []")
    case True
    then show ?thesis by (simp add: OfflineCache_flush_def)
  next
    case False
    from OfflineCache_flush_char [OF that False] obtain new where
      a: "pass_acts (passes_started u) (cacheQueue u) new
            (u\<lparr>passes_started := passes_started u + 1\<rparr>) (OfflineCache_flush u)" by blast
    from pass_acts_queue(4) [OF a] a show ?thesis by (simp add: pass_acts_def)
  qed
  show ?thesis
  proof (cases e)
    case OcOnline
    let ?s = "s\<lparr>isOnline := True,
          oc_console := oc_console s @ [''[OfflineCache] Network restored, flushing cache...'']\<rparr>"
    have "oc_wf ?s" using wf by (simp add: oc_wf_def)
    from fl [OF this] OcOnline show ?thesis by (simp add: handleOnline_def)
  next
    case OcFlush
    with fl [OF wf] show ?thesis by simp
  next
    case (OcResume q)
    show ?thesis
    proof (cases "find (\<lambda>p. fp_id p = q) (passes s)")
      case None
      with OcResume show ?thesis by (simp add: flush_resumes_def)
    next
      case (Some p)
      from flush_resumes_char [OF wf pwf Some] obtain new where
        a: "pass_acts q (fp_awaited p # fp_rest p)
            ([Settle q (fp_awaited p) (\<not> fp_rejects p)] @ new) s (flush_resumes q s)" by blast
      from pass_acts_queue(4) [OF a] a OcResume show ?thesis by (simp add: pass_acts_def)
    qed
  qed (use ev in simp_all)
qed

lemma bound_step:
  assumes "int (length (cacheQueue s)) \<le> maxCacheSize (oc_config s)" and "oc_wf s"
    and "passes_wf s"
  shows "int (length (cacheQueue (oc_step e s))) \<le> maxCacheSize (oc_config (oc_step e s))"
proof (cases "pass_event e")
  case True
  from pass_event_bound [OF assms(2,3) True] assms(1) show ?thesis by simp
next
  case False
  show ?thesis
  proof (cases e)
    case (OcCache r now)
    with assms(1) show ?thesis
      using cache_queue [of s r now]
      by (cases "oc_enabled (oc_config s)")
         (auto simp: OfflineCache_cache_def Let_def saveToStorage_frame)
  next
    case (OcSend r now)
    with assms(1) show ?thesis
      using cache_queue [of s r now]
      by (cases "oc_enabled (oc_config s)")
         (auto simp: OfflineCache_send_def oc_call_sender_def OfflineCache_cache_def Let_def
                     saveToStorage_frame)
  next
    case OcOffline
    with assms(1) show ?thesis by (simp add: handleOffline_def)
  next
    case OcClear
    with assms(1) show ?thesis
      by (simp add: OfflineCache_clear_def saveToStorage_frame)
  next
    case OcDestroy
    with assms(1) show ?thesis by (simp add: OfflineCache_destroy_def saveToStorage_frame)
  qed (use False in simp_all)
qed

text \<open>
  Hence a queue within its bound stays within it through every sequence of events: the
  bound can only be exceeded where the queue does not start within it.
\<close>

lemma bound_run:
  "oc_wf s \<Longrightarrow> passes_wf s \<Longrightarrow> int (length (cacheQueue s)) \<le> maxCacheSize (oc_config s) \<Longrightarrow>
   int (length (cacheQueue (oc_run evs s))) \<le> maxCacheSize (oc_config (oc_run evs s))"
proof (induction evs arbitrary: s)
  case Nil
  then show ?case by simp
next
  case (Cons e evs)
  from bound_step [OF Cons.prems(3,1,2), of e] step_wf [OF Cons.prems(1,2), of e] Cons.IH
  show ?case by simp
qed

text \<open>
  Claim C6 at a failing input. \<open>loadFromStorage\<close> takes over the whole persisted array:
  a cache constructed with \<open>maxCacheSize = 2\<close> over a storage holding three reports has
  three items in its queue, and still three after the next \<open>cache\<close> call, which evicts
  only one.
\<close>

theorem OfflineCache_recovery_exceeds_maxCacheSize:
  "maxCacheSize (oc_config recovered) = 2 \<and> length (cacheQueue recovered) = 3 \<and>
   length (cacheQueue (OfflineCache_cache ''D'' 4 recovered)) = 3 \<and>
   map c_report (cached (OfflineCache_cache ''D'' 4 recovered)) = [''B'', ''C'', ''D'']"
  by (simp add: recovered_def three_stored_def oc_eval failing_sender_def)
section \<open>Verification: ErrorMonitor\<close>

lemmas em_eval =
  ErrorMonitor_new_def merged_config_def default_of_def or_default_def Logger_new_def
  BREADCRUMBS_MAX_SIZE_def REPORTING_DEFAULT_DELAY_def REPORTING_DEFAULT_BATCH_SIZE_def
  SAMPLING_DEFAULT_RATE_def LogLevel_DEBUG_def LogLevel_INFO_def LogLevel_WARN_def
  LogLevel_ERROR_def LogLevel_SILENT_def
  ErrorMonitor_init_def ErrorMonitor_use_def logger_log_def
  ErrorMonitor_capture_def normalize_def apply_options_def build_report_def shouldFilter_def
  ErrorMonitor_report_def the_batchQueue_def the_offlineCache_def sendToServer_def
  sendBatchToServer_def sendToServerDirectly_def
  RingBuffer_new_def RingBuffer_toArray_def toArray_loop.simps new_Array_def array_values_def
  array_items_def List.map_filter_simps
  BatchQueue_new_def BatchQueue_add_def BatchQueue_flush_def scheduleFlush_def sendReports_def
  call_sender_def clearTimeout_def
  OfflineCache_new_def loadFromStorage_def OfflineCache_send_def oc_call_sender_def
  Let_def

lemma with_minLevel_fields:
  "isInitialized (with_minLevel l m) = isInitialized m"
  "crumb_heap (with_minLevel l m) = crumb_heap m"
  "breadcrumbs (with_minLevel l m) = breadcrumbs m"
  "plugins (with_minLevel l m) = plugins m"
  "sessionId (with_minLevel l m) = sessionId m"
  "logger_level (with_minLevel l m) = logger_level m"
  "m_console (with_minLevel l m) = m_console m"
  "batchQueue (with_minLevel l m) = batchQueue m"
  "offlineCache (with_minLevel l m) = offlineCache m"
  "browser (with_minLevel l m) = browser m"
  "hook_calls (with_minLevel l m) = hook_calls m"
  "reported (with_minLevel l m) = reported m"
  "direct_sent (with_minLevel l m) = direct_sent m"
  "appId (config (with_minLevel l m)) = appId (config m)"
  "dsn (config (with_minLevel l m)) = dsn (config m)"
  "userId (config (with_minLevel l m)) = userId (config m)"
  "tags (config (with_minLevel l m)) = tags (config m)"
  "errorSampleRate (config (with_minLevel l m)) = errorSampleRate (config m)"
  "report_cfg (config (with_minLevel l m)) = report_cfg (config m)"
  "enabled (config (with_minLevel l m)) = enabled (config m)"
  "debug (config (with_minLevel l m)) = debug (config m)"
  by (simp_all add: with_minLevel_def)

lemma with_minLevel_updates:
  "with_minLevel l (m\<lparr>m_console := c\<rparr>) = (with_minLevel l m)\<lparr>m_console := c\<rparr>"
  "with_minLevel l (m\<lparr>hook_calls := hc\<rparr>) = (with_minLevel l m)\<lparr>hook_calls := hc\<rparr>"
  "with_minLevel l (m\<lparr>reported := rs\<rparr>) = (with_minLevel l m)\<lparr>reported := rs\<rparr>"
  "with_minLevel l (m\<lparr>crumb_heap := h\<rparr>) = (with_minLevel l m)\<lparr>crumb_heap := h\<rparr>"
  "with_minLevel l (m\<lparr>batchQueue := q\<rparr>) = (with_minLevel l m)\<lparr>batchQueue := q\<rparr>"
  "with_minLevel l (m\<lparr>offlineCache := c'\<rparr>) = (with_minLevel l m)\<lparr>offlineCache := c'\<rparr>"
  "with_minLevel l (m\<lparr>direct_sent := ds\<rparr>) = (with_minLevel l m)\<lparr>direct_sent := ds\<rparr>"
  by (simp_all add: with_minLevel_def)

lemma with_minLevel_twice: "with_minLevel l (with_minLevel l' m) = with_minLevel l m"
  by (cases "filter_cfg (config m)") (simp_all add: with_minLevel_def)

lemma shouldFilter_minLevel: "shouldFilter (with_minLevel l m) e = shouldFilter m e"
  by (cases "filter_cfg (config m)") (simp_all add: shouldFilter_def with_minLevel_def Let_def)

lemma senders_minLevel:
  "sendBatchToServer (config (with_minLevel l m)) br = sendBatchToServer (config m) br"
  "sendToServerDirectly (config (with_minLevel l m)) br = sendToServerDirectly (config m) br"
  by (simp_all add: fun_eq_iff sendBatchToServer_def sendToServerDirectly_def with_minLevel_fields)

lemma logger_log_minLevel:
  "logger_log lv s (with_minLevel l m) = with_minLevel l (logger_log lv s m)"
  by (simp add: logger_log_def with_minLevel_fields with_minLevel_updates)

lemma beforeCapture_hooks_minLevel:
  "beforeCapture_hooks ps n p (with_minLevel l m) =
     (case beforeCapture_hooks ps n p m of (m', r) \<Rightarrow> (with_minLevel l m', r))"
proof (induction ps arbitrary: n p m)
  case Nil
  then show ?case by simp
next
  case (Cons a ps)
  show ?case
  proof (cases "beforeCapture a")
    case None
    then show ?thesis using Cons.IH by simp
  next
    case (Some hook)
    obtain n1 res where h: "hook n = (n1, res)" by (cases "hook n")
    show ?thesis
      using Some h Cons.IH
      by (cases res)
         (simp_all add: with_minLevel_fields with_minLevel_updates [symmetric])
  qed
qed

lemma sendToServer_minLevel:
  "sendToServer d now (with_minLevel l m) =
     (case sendToServer d now m of (m', e) \<Rightarrow> (with_minLevel l m', e))"
  by (cases "offlineCache m")
     (simp_all add: sendToServer_def the_offlineCache_def with_minLevel_fields senders_minLevel
        with_minLevel_updates Let_def split: prod.splits)

lemma report_minLevel:
  "ErrorMonitor_report d now (with_minLevel l m) =
     (case ErrorMonitor_report d now m of (m', e) \<Rightarrow> (with_minLevel l m', e))"
proof -
  let ?m1 = "m\<lparr>reported := reported m @ [d]\<rparr>"
  have m1: "(with_minLevel l m)\<lparr>reported := reported (with_minLevel l m) @ [d]\<rparr> = with_minLevel l ?m1"
    by (simp add: with_minLevel_fields with_minLevel_updates)
  have bq: "the_batchQueue (with_minLevel l ?m1) = the_batchQueue ?m1"
    by (simp add: the_batchQueue_def with_minLevel_fields senders_minLevel split: option.splits)
  show ?thesis
  proof (cases "beforeReport_hooks (plugins m) d None")
    case (Inl e)
    then show ?thesis
      unfolding ErrorMonitor_report_def Let_def m1 bq
      by (simp add: with_minLevel_fields)
  next
    case (Inr pr)
    show ?thesis
    proof (cases "the_batchQueue ?m1")
      case None
      with Inr show ?thesis
        unfolding ErrorMonitor_report_def Let_def m1 bq
        by (simp add: with_minLevel_fields sendToServer_minLevel)
    next
      case (Some q)
      with Inr show ?thesis
        unfolding ErrorMonitor_report_def Let_def m1 bq
        by (simp add: with_minLevel_fields with_minLevel_updates split: prod.splits)
    qed
  qed
qed

lemma build_report_minLevel:
  "build_report (with_minLevel l m) io opts user pe snap = build_report m io opts user pe snap"
  by (auto simp: build_report_def with_minLevel_fields split: option.splits)

lemma capture_minLevel:
  "ErrorMonitor_capture error options io (with_minLevel k m) =
     (case ErrorMonitor_capture error options io m of
        (m', raised) \<Rightarrow> (with_minLevel k m', raised))"
proof -
  define ne where "ne = normalize error"
  define opts where "opts = apply_options options"
  define sampled where "sampled \<longleftrightarrow> \<not> opts_skipSampling opts \<and>
      (case errorSampleRate (config m) of None \<Rightarrow> False | Some rate \<Rightarrow> io_random io > rate)"
  define filtered where "filtered \<longleftrightarrow> \<not> opts_skipFilter opts \<and> shouldFilter m ne"
  obtain m1 r where hooks: "beforeCapture_hooks (plugins m) ne None m = (m1, r)"
    by (cases "beforeCapture_hooks (plugins m) ne None m")
  then have hooks': "beforeCapture_hooks (plugins m) ne None (with_minLevel k m) = (with_minLevel k m1, r)"
    by (simp add: beforeCapture_hooks_minLevel)
  obtain h snap where ta: "RingBuffer_toArray (crumb_heap m1, breadcrumbs m1) = (h, snap)"
    by (cases "RingBuffer_toArray (crumb_heap m1, breadcrumbs m1)")
  note defs = ErrorMonitor_capture_def Let_def ne_def [symmetric] opts_def [symmetric]
    with_minLevel_fields shouldFilter_minLevel
  show ?thesis
  proof (cases "isInitialized m \<and> enabled (config m) \<noteq> Some False \<and> \<not> filtered \<and> \<not> sampled")
    case False
    then show ?thesis
      unfolding defs filtered_def sampled_def
      by (auto simp: logger_log_minLevel)
  next
    case True
    then have pre: "isInitialized m" "enabled (config m) \<noteq> Some False"
      "\<not> filtered" "\<not> sampled"
      by simp_all
    have L: "ErrorMonitor_capture error options io (with_minLevel k m) =
        (case (with_minLevel k m1, r) of
                (m1, HooksRaise e) \<Rightarrow> (m1, Some e)
              | (m1, HooksVeto) \<Rightarrow> (m1, None)
              | (m1, HooksDone processedError) \<Rightarrow>
                  (case opts_user opts of
                     None \<Rightarrow> (m1, Some (TypeError ''Cannot read properties of undefined (reading id)''))
                   | Some user \<Rightarrow>
                       (let (h, snapshot) = RingBuffer_toArray (crumb_heap m1, breadcrumbs m1);
                            m2 = m1\<lparr>crumb_heap := h\<rparr>;
                            report = build_report m2 io opts user processedError
                                       (array_values (h ! snapshot))
                        in case afterCapture_hooks (plugins m2) report of
                             Inl e \<Rightarrow> (m2, Some e)
                           | Inr report1 \<Rightarrow> ErrorMonitor_report report1 (io_now io) m2)))"
      unfolding defs filtered_def [symmetric] sampled_def [symmetric]
      using pre by (simp add: hooks')
    have R: "ErrorMonitor_capture error options io m =
        (case (m1, r) of
                (m1, HooksRaise e) \<Rightarrow> (m1, Some e)
              | (m1, HooksVeto) \<Rightarrow> (m1, None)
              | (m1, HooksDone processedError) \<Rightarrow>
                  (case opts_user opts of
                     None \<Rightarrow> (m1, Some (TypeError ''Cannot read properties of undefined (reading id)''))
                   | Some user \<Rightarrow>
                       (let (h, snapshot) = RingBuffer_toArray (crumb_heap m1, breadcrumbs m1);
                            m2 = m1\<lparr>crumb_heap := h\<rparr>;
                            report = build_report m2 io opts user processedError
                                       (array_values (h ! snapshot))
                        in case afterCapture_hooks (plugins m2) report of
                             Inl e \<Rightarrow> (m2, Some e)
                           | Inr report1 \<Rightarrow> ErrorMonitor_report report1 (io_now io) m2)))"
      unfolding defs filtered_def [symmetric] sampled_def [symmetric]
      using pre by (simp add: hooks)
    show ?thesis
    proof (cases r)
      case (HooksRaise e)
      then show ?thesis unfolding L R by simp
    next
      case HooksVeto
      then show ?thesis unfolding L R by simp
    next
      case (HooksDone pe)
      show ?thesis
      proof (cases "opts_user opts")
        case None
        with HooksDone show ?thesis unfolding L R by simp
      next
        case (Some user)
        define rep where "rep = build_report (m1\<lparr>crumb_heap := h\<rparr>) io opts user pe
                                       (array_values (h ! snap))"
        have u: "(with_minLevel k m1)\<lparr>crumb_heap := h\<rparr> = with_minLevel k (m1\<lparr>crumb_heap := h\<rparr>)"
          by (simp add: with_minLevel_updates)
        have rep': "build_report (with_minLevel k (m1\<lparr>crumb_heap := h\<rparr>)) io opts user pe
                                       (array_values (h ! snap)) = rep"
          by (simp add: rep_def build_report_minLevel)
        show ?thesis
        proof (cases "afterCapture_hooks (plugins m1) rep")
          case (Inl e)
          with HooksDone Some show ?thesis
            unfolding L R
            by (simp add: ta with_minLevel_fields u rep' rep_def [symmetric])
        next
          case (Inr rep1)
          with HooksDone Some show ?thesis
            unfolding L R
            by (simp add: ta with_minLevel_fields u rep' rep_def [symmetric] report_minLevel)
        qed
      qed
    qed
  qed
qed

text \<open>
  Claim C10. \<open>filter.minLevel\<close> has no effect. For two monitors that differ only in
  \<open>filter.minLevel\<close> (\<open>l\<close> in one, \<open>l'\<close> in the other), \<open>shouldFilter\<close> answers the same
  for every event, and \<open>capture\<close> with the same event, options, clock, random draw and
  event identifier raises the same and leaves the same state, \<open>minLevel\<close> apart: the
  filter decision reads the \<open>ignoreErrors\<close> and \<open>ignoreUrls\<close> patterns only.
\<close>

theorem minLevel_has_no_effect:
  "shouldFilter (with_minLevel l m) e = shouldFilter (with_minLevel l' m) e \<and>
   ErrorMonitor_capture error options io (with_minLevel l m) =
     (case ErrorMonitor_capture error options io (with_minLevel l' m) of
        (m', raised) \<Rightarrow> (with_minLevel l m', raised))"
  by (simp add: shouldFilter_minLevel capture_minLevel with_minLevel_twice split: prod.splits)

text \<open>
  An event captured at level \<open>debug\<close> is reported under \<open>minLevel = fatal\<close> as it is
  under \<open>minLevel = debug\<close>.
\<close>

theorem minLevel_has_no_effect_witness:
  "map r_level (reported (fst (ErrorMonitor_capture (RawErrorType boom)
      (Some \<lparr>o_level = Present ''debug'', o_tags = None, o_extra = None, o_user = Absent,
             o_skipSampling = None, o_skipFilter = None\<rparr>) test_io
      (with_minLevel (Some ''fatal'') (test_monitor test_arg [])))))
     = [Some ''debug''] \<and>
   ErrorMonitor_capture (RawErrorType boom)
      (Some \<lparr>o_level = Present ''debug'', o_tags = None, o_extra = None, o_user = Absent,
             o_skipSampling = None, o_skipFilter = None\<rparr>) test_io
      (with_minLevel (Some ''fatal'') (test_monitor test_arg [])) =
     (case ErrorMonitor_capture (RawErrorType boom)
        (Some \<lparr>o_level = Present ''debug'', o_tags = None, o_extra = None, o_user = Absent,
             o_skipSampling = None, o_skipFilter = None\<rparr>) test_io
        (with_minLevel (Some ''debug'') (test_monitor test_arg [])) of
        (m', raised) \<Rightarrow> (with_minLevel (Some ''fatal'') m', raised))"
proof -
  have "map r_level (reported (fst (ErrorMonitor_capture (RawErrorType boom)
      (Some \<lparr>o_level = Present ''debug'', o_tags = None, o_extra = None, o_user = Absent,
             o_skipSampling = None, o_skipFilter = None\<rparr>) test_io
      (with_minLevel (Some ''fatal'') (test_monitor test_arg [])))))
     = [Some ''debug'']"
    by (simp add: em_eval test_monitor_def test_arg_def test_browser_def test_io_def boom_def
          with_minLevel_def)
  with minLevel_has_no_effect [of "Some ''fatal''" "test_monitor test_arg []" boom "Some ''debug''"
      "RawErrorType boom" "Some \<lparr>o_level = Present ''debug'', o_tags = None, o_extra = None,
             o_user = Absent, o_skipSampling = None, o_skipFilter = None\<rparr>" test_io]
  show ?thesis by blast
qed


text \<open>
  What the loop over the \<open>beforeCapture\<close> hooks does: it changes nothing of the monitor
  but the record of calls; hooks that leave their argument as it is are called in
  registration order, each with \<open>normalizedError\<close>, up to the first that throws or
  returns \<open>null\<close>; and \<open>null\<close> ends \<open>capture\<close> with nothing raised, reported, queued or
  cached.
\<close>

lemma beforeCapture_hooks_frame:
  "beforeCapture_hooks ps n p m = (m', r) \<Longrightarrow> m' = m\<lparr>hook_calls := hook_calls m'\<rparr>"
proof (induction ps arbitrary: n p m)
  case Nil
  then show ?case by auto
next
  case (Cons a ps)
  show ?case
  proof (cases "beforeCapture a")
    case None
    with Cons show ?thesis by simp
  next
    case (Some hook)
    obtain n1 res where h: "hook n = (n1, res)" by (cases "hook n")
    let ?m1 = "m\<lparr>hook_calls := hook_calls m @ [(p_name a, n)]\<rparr>"
    have "m' = ?m1\<lparr>hook_calls := hook_calls m'\<rparr>"
      using Cons.prems Some h Cons.IH [of _ _ ?m1]
      by (cases res) auto
    then show ?thesis by simp
  qed
qed

lemma beforeCapture_hooks_calls:
  assumes "beforeCapture_hooks ps n p m = (m', r)"
    and "\<forall>pl \<in> set ps. \<forall>h. beforeCapture pl = Some h \<longrightarrow> (\<forall>x. fst (h x) = x)"
  shows "\<exists>k. hook_calls m' =
           hook_calls m @ map (\<lambda>pl. (p_name pl, n))
             (take k (filter (\<lambda>pl. beforeCapture pl \<noteq> None) ps)) \<and>
           (\<forall>v. r = HooksDone v \<longrightarrow> k = length (filter (\<lambda>pl. beforeCapture pl \<noteq> None) ps))"
  using assms
proof (induction ps arbitrary: p m)
  case Nil
  then show ?case by auto
next
  case (Cons a ps)
  let ?f = "filter (\<lambda>pl. beforeCapture pl \<noteq> None)"
  show ?case
  proof (cases "beforeCapture a")
    case None
    with Cons.prems Cons.IH [of p m] show ?thesis by simp
  next
    case (Some hook)
    obtain n1 res where h: "hook n = (n1, res)" by (cases "hook n")
    with Cons.prems(2) Some have n1: "n1 = n" by (auto dest!: spec [where x = n])
    let ?m1 = "m\<lparr>hook_calls := hook_calls m @ [(p_name a, n)]\<rparr>"
    have stop: ?thesis if "m' = ?m1" "\<forall>v. r \<noteq> HooksDone v"
    proof -
      have "hook_calls m' = hook_calls m @ map (\<lambda>pl. (p_name pl, n)) (take 1 (?f (a # ps)))"
        using that(1) Some by simp
      with that(2) show ?thesis by blast
    qed
    have go: ?thesis if run: "beforeCapture_hooks ps n p' ?m1 = (m', r)" for p'
    proof -
      from Cons.IH [OF run] Cons.prems(2)
      obtain k where k: "hook_calls m' = hook_calls ?m1 @ map (\<lambda>pl. (p_name pl, n)) (take k (?f ps))"
        "\<forall>v. r = HooksDone v \<longrightarrow> k = length (?f ps)"
        by auto
      have "hook_calls m' = hook_calls m @ map (\<lambda>pl. (p_name pl, n)) (take (Suc k) (?f (a # ps)))"
        using k(1) Some by simp
      moreover have "\<forall>v. r = HooksDone v \<longrightarrow> Suc k = length (?f (a # ps))"
        using k(2) Some by simp
      ultimately show ?thesis by blast
    qed
    show ?thesis
    proof (cases res)
      case (HookThrows e)
      with Cons.prems(1) Some h show ?thesis by (intro stop) auto
    next
      case HookNull
      with Cons.prems(1) Some h show ?thesis by (intro stop) auto
    next
      case HookUndefined
      with Cons.prems(1) Some h n1 show ?thesis by (intro go [of p]) simp
    next
      case HookSame
      with Cons.prems(1) Some h n1 show ?thesis by (intro go [of None]) simp
    next
      case (HookFresh v)
      with Cons.prems(1) Some h n1 show ?thesis by (intro go [of "Some v"]) simp
    qed
  qed
qed

lemma capture_veto:
  assumes "beforeCapture_hooks (plugins m) (normalize error) None m = (m1, HooksVeto)"
  shows "snd (ErrorMonitor_capture error options io m) = None \<and>
         reported (fst (ErrorMonitor_capture error options io m)) = reported m \<and>
         batchQueue (fst (ErrorMonitor_capture error options io m)) = batchQueue m \<and>
         offlineCache (fst (ErrorMonitor_capture error options io m)) = offlineCache m"
proof -
  from beforeCapture_hooks_frame [OF assms] have m1: "m1 = m\<lparr>hook_calls := hook_calls m1\<rparr>" .
  have f: "reported m1 = reported m" "batchQueue m1 = batchQueue m" "offlineCache m1 = offlineCache m"
    by (subst m1, simp)+
  show ?thesis
    unfolding ErrorMonitor_capture_def Let_def
    by (simp add: assms f logger_log_def)
qed

text \<open>
  Claim C1 at a failing input. Two plugins are registered, each with a \<open>beforeCapture\<close>
  hook that returns a copy of the event with a suffix appended to the message, \<open>[A]\<close>
  for the first and \<open>[B]\<close> for the second. The hooks are called in registration order,
  but the second is called with the original event, not with the first hook's result, and
  the report carries \<open>boom [B]\<close>: the first transformation is lost, where the composition
  would give \<open>boom [A] [B]\<close>.
\<close>

theorem beforeCapture_hooks_not_composed:
  "hook_calls (fst (ErrorMonitor_capture (RawErrorType boom) None test_io
      (test_monitor test_arg [appending_plugin ''p1'' '' [A]'', appending_plugin ''p2'' '' [B]''])))
     = [(''p1'', boom), (''p2'', boom)] \<and>
   map r_message (reported (fst (ErrorMonitor_capture (RawErrorType boom) None test_io
      (test_monitor test_arg [appending_plugin ''p1'' '' [A]'', appending_plugin ''p2'' '' [B]''])))) =
     [''boom [B]''] \<and>
   snd (ErrorMonitor_capture (RawErrorType boom) None test_io
      (test_monitor test_arg [appending_plugin ''p1'' '' [A]'', appending_plugin ''p2'' '' [B]''])) = None"
  by (simp add: em_eval test_monitor_def test_arg_def test_browser_def test_io_def boom_def
          appending_plugin_def)

lemma beforeCapture_hooks_no_raise:
  assumes "\<forall>pl \<in> set ps. \<forall>h. beforeCapture pl = Some h \<longrightarrow> (\<forall>x e. snd (h x) \<noteq> HookThrows e)"
  shows "snd (beforeCapture_hooks ps n p m) \<noteq> HooksRaise e"
  using assms
proof (induction ps arbitrary: n p m)
  case Nil
  then show ?case by simp
next
  case (Cons a ps)
  then have IH: "snd (beforeCapture_hooks ps n' p' m') \<noteq> HooksRaise e" for n' p' m'
    by simp
  show ?case
  proof (cases "beforeCapture a")
    case None
    with IH show ?thesis by simp
  next
    case (Some hook)
    obtain n1 res where h: "hook n = (n1, res)" by (cases "hook n")
    have nt: "res \<noteq> HookThrows e'" for e'
      using Cons.prems Some h by (auto dest!: spec [where x = n])
    show ?thesis
      using Some h nt IH by (cases res) auto
  qed
qed

lemma afterCapture_hooks_no_raise:
  assumes "\<forall>pl \<in> set ps. \<forall>h. afterCapture pl = Some h \<longrightarrow> (\<forall>x e. snd (h x) \<noteq> MergeThrows e)"
  shows "\<exists>r. afterCapture_hooks ps rep = Inr r"
  using assms
proof (induction ps arbitrary: rep)
  case Nil
  then show ?case by simp
next
  case (Cons a ps)
  then have IH: "\<exists>r. afterCapture_hooks ps rep' = Inr r" for rep'
    by simp
  show ?case
  proof (cases "afterCapture a")
    case None
    with IH show ?thesis by simp
  next
    case (Some hook)
    obtain r1 res where h: "hook rep = (r1, res)" by (cases "hook rep")
    have nt: "res \<noteq> MergeThrows e'" for e'
      using Cons.prems Some h by (auto dest!: spec [where x = rep])
    show ?thesis
      using Some h nt IH by (cases res) auto
  qed
qed

lemma beforeReport_hooks_no_raise:
  assumes "\<forall>pl \<in> set ps. \<forall>h. beforeReport pl = Some h \<longrightarrow> (\<forall>x e. snd (h x) \<noteq> MergeThrows e)"
  shows "\<exists>r. beforeReport_hooks ps d p = Inr r"
  using assms
proof (induction ps arbitrary: d p)
  case Nil
  then show ?case by simp
next
  case (Cons a ps)
  then have IH: "\<exists>r. beforeReport_hooks ps d' p' = Inr r" for d' p'
    by simp
  show ?case
  proof (cases "beforeReport a")
    case None
    with IH show ?thesis by simp
  next
    case (Some hook)
    obtain d1 res where h: "hook d = (d1, res)" by (cases "hook d")
    have nt: "res \<noteq> MergeThrows e'" for e'
      using Cons.prems Some h by (auto dest!: spec [where x = d])
    show ?thesis
      using Some h nt IH by (cases res) auto
  qed
qed

lemma add_no_raise:
  assumes "has_window q" "bq_enabled (bq_config q)"
  shows "snd (BatchQueue_add r now q) = None"
proof -
  let ?q1 = "q\<lparr>queue := queue q @ [\<lparr>q_report = r, q_timestamp = now\<rparr>]\<rparr>"
  have "snd (BatchQueue_flush ?q1) = None"
    using flush_result [of ?q1] assms(1) by simp
  moreover have "snd (scheduleFlush now ?q1) = None"
    using assms(1) by (simp add: scheduleFlush_def)
  ultimately show ?thesis
    using assms(2) by (simp add: BatchQueue_add_def Let_def)
qed

lemma report_no_raise:
  assumes "batchQueue m = Some q" "has_window q" "bq_enabled (bq_config q)"
    and "\<forall>pl \<in> set (plugins m). \<forall>h. beforeReport pl = Some h \<longrightarrow> (\<forall>x e. snd (h x) \<noteq> MergeThrows e)"
  shows "snd (ErrorMonitor_report d now m) = None"
proof -
  obtain r where r: "beforeReport_hooks (plugins m) d None = Inr r"
    using beforeReport_hooks_no_raise [OF assms(4)] by blast
  let ?q = "q\<lparr>bq_sender := sendBatchToServer (config m) (browser m)\<rparr>"
  obtain q1 e1 where a: "BatchQueue_add r now ?q = (q1, e1)"
    by (cases "BatchQueue_add r now ?q")
  have "snd (BatchQueue_add r now ?q) = None"
    using assms(2,3) by (intro add_no_raise) simp_all
  with a have "e1 = None" by simp
  then show ?thesis
    using r a assms(1)
    by (simp add: ErrorMonitor_report_def the_batchQueue_def Let_def)
qed

text \<open>
  The path through the batch queue. Take a monitor that has its batch queue, in a
  browser (\<open>window\<close> exists), whose plugin hooks do not throw, and options of the
  declared type whose \<open>user\<close> is not given as \<open>undefined\<close>. Then \<open>capture\<close>,
  \<open>captureError\<close>, \<open>captureMessage\<close> and \<open>report\<close> raise nothing, whatever the custom
  reporter, \<open>sendBeacon\<close> and \<open>fetch\<close> do: what the reporter or a transport primitive
  throws during a flush is caught by \<open>sendReports\<close>.
\<close>

lemma batch_path_catches:
  assumes "batchQueue m = Some q" and "has_window q" and "bq_enabled (bq_config q)"
    and "\<forall>pl \<in> set (plugins m).
           (\<forall>h. beforeCapture pl = Some h \<longrightarrow> (\<forall>x e. snd (h x) \<noteq> HookThrows e)) \<and>
           (\<forall>h. afterCapture pl = Some h \<longrightarrow> (\<forall>x e. snd (h x) \<noteq> MergeThrows e)) \<and>
           (\<forall>h. beforeReport pl = Some h \<longrightarrow> (\<forall>x e. snd (h x) \<noteq> MergeThrows e))"
    and "\<forall>opt. options = Some opt \<longrightarrow> o_user opt \<noteq> Undefined"
  shows "snd (ErrorMonitor_capture error options io m) = None \<and>
         snd (ErrorMonitor_captureError message stack options io m) = None \<and>
         snd (ErrorMonitor_captureMessage message level options io m) = None \<and>
         snd (ErrorMonitor_report data now m) = None"
proof -
  from assms(4) have
    bc: "\<forall>pl \<in> set (plugins m). \<forall>h. beforeCapture pl = Some h \<longrightarrow> (\<forall>x e. snd (h x) \<noteq> HookThrows e)"
    and ac: "\<forall>pl \<in> set (plugins m). \<forall>h. afterCapture pl = Some h \<longrightarrow> (\<forall>x e. snd (h x) \<noteq> MergeThrows e)"
    and br: "\<forall>pl \<in> set (plugins m). \<forall>h. beforeReport pl = Some h \<longrightarrow> (\<forall>x e. snd (h x) \<noteq> MergeThrows e)"
    by blast+
  have cap: "snd (ErrorMonitor_capture ev os io m) = None"
    if user: "\<forall>opt. os = Some opt \<longrightarrow> o_user opt \<noteq> Undefined" for ev os
  proof -
    define ne where "ne = normalize ev"
    define opts where "opts = apply_options os"
    obtain m1 r where hooks: "beforeCapture_hooks (plugins m) ne None m = (m1, r)"
      by (cases "beforeCapture_hooks (plugins m) ne None m")
    from beforeCapture_hooks_frame [OF hooks]
    have m1: "m1 = m\<lparr>hook_calls := hook_calls m1\<rparr>" .
    have nr: "r \<noteq> HooksRaise e" for e
      using beforeCapture_hooks_no_raise [OF bc, where n = ne and p = None and m = m and e = e] hooks
      by simp
    obtain u where u: "opts_user opts = Some u"
      using user by (cases os; cases "o_user (the os)")
        (auto simp: opts_def apply_options_def default_of_def)
    obtain h snap where ta: "RingBuffer_toArray (crumb_heap m1, breadcrumbs m1) = (h, snap)"
      by (cases "RingBuffer_toArray (crumb_heap m1, breadcrumbs m1)")
    let ?m2 = "m1\<lparr>crumb_heap := h\<rparr>"
    have m2: "batchQueue ?m2 = Some q" "plugins ?m2 = plugins m"
      using assms(1) by (subst m1, simp)+
    have rep: "snd (ErrorMonitor_report d n ?m2) = None" for d n
      using assms(2,3) br m2 by (intro report_no_raise [where q = q]) simp_all
    have tail: "snd (case afterCapture_hooks (plugins ?m2) rp of
                       Inl e \<Rightarrow> (?m2, Some e)
                     | Inr report1 \<Rightarrow> ErrorMonitor_report report1 n ?m2) = None" for rp n
      using afterCapture_hooks_no_raise [OF ac, of rp] rep
      by (auto simp: m2)
    show ?thesis
      unfolding ErrorMonitor_capture_def Let_def ne_def [symmetric] opts_def [symmetric]
      using nr tail
      by (cases r) (auto simp: hooks u ta logger_log_def)
  qed
  have user': "\<forall>opt. Some ((case options of
                 None \<Rightarrow> \<lparr>o_level = Absent, o_tags = None, o_extra = None, o_user = Absent,
                           o_skipSampling = None, o_skipFilter = None\<rparr>
               | Some o' \<Rightarrow> o')
              \<lparr>o_level := Present (case level of None \<Rightarrow> ''info'' | Some l \<Rightarrow> l)\<rparr>) = Some opt
           \<longrightarrow> o_user opt \<noteq> Undefined"
    using assms(5) by (cases options) auto
  show ?thesis
    using cap [OF assms(5)] cap [OF user'] report_no_raise [OF assms(1,2,3) br]
    by (simp add: ErrorMonitor_captureError_def ErrorMonitor_captureMessage_def)
qed

text \<open>
  A custom reporter that throws at every call, with batches of one: \<open>capture\<close> flushes,
  the reporter throws, the queue logs the failure and \<open>capture\<close> returns normally.
\<close>

lemma batch_path_catches_example:
  "map_option has_window (batchQueue (test_monitor throwing_reporter_arg [appending_plugin ''p1'' '' [A]''])) = Some True \<and>
   map_option (\<lambda>q. bq_enabled (bq_config q))
     (batchQueue (test_monitor throwing_reporter_arg [appending_plugin ''p1'' '' [A]''])) = Some True \<and>
   snd (ErrorMonitor_capture (RawErrorType boom) None test_io
          (test_monitor throwing_reporter_arg [appending_plugin ''p1'' '' [A]''])) = None \<and>
   map_option bq_console
     (batchQueue (fst (ErrorMonitor_capture (RawErrorType boom) None test_io
          (test_monitor throwing_reporter_arg [appending_plugin ''p1'' '' [A]''])))) =
     Some [''[BatchQueue] Error sending reports:'']"
proof -
  define M where "M = test_monitor throwing_reporter_arg [appending_plugin ''p1'' '' [A]'']"
  obtain q where q: "batchQueue M = Some q" "has_window q" "bq_enabled (bq_config q)"
    by (simp add: M_def em_eval test_monitor_def test_arg_def test_browser_def test_io_def boom_def
          throwing_reporter_arg_def appending_plugin_def)
  have hooks: "\<forall>pl \<in> set (plugins M).
           (\<forall>h. beforeCapture pl = Some h \<longrightarrow> (\<forall>x e. snd (h x) \<noteq> HookThrows e)) \<and>
           (\<forall>h. afterCapture pl = Some h \<longrightarrow> (\<forall>x e. snd (h x) \<noteq> MergeThrows e)) \<and>
           (\<forall>h. beforeReport pl = Some h \<longrightarrow> (\<forall>x e. snd (h x) \<noteq> MergeThrows e))"
    by (auto simp: M_def em_eval test_monitor_def test_arg_def test_browser_def test_io_def boom_def
          throwing_reporter_arg_def appending_plugin_def)
  have user: "\<forall>opt. (None :: CaptureOptions option) = Some opt \<longrightarrow> o_user opt \<noteq> Undefined"
    by simp
  from batch_path_catches [OF q hooks user, of "RawErrorType boom" test_io]
  have "snd (ErrorMonitor_capture (RawErrorType boom) None test_io M) = None" by simp
  moreover have "map_option has_window (batchQueue M) = Some True"
    "map_option (\<lambda>q. bq_enabled (bq_config q)) (batchQueue M) = Some True"
    using q by simp_all
  moreover have "map_option bq_console
     (batchQueue (fst (ErrorMonitor_capture (RawErrorType boom) None test_io M))) =
     Some [''[BatchQueue] Error sending reports:'']"
    by (simp add: M_def em_eval test_monitor_def test_arg_def test_browser_def test_io_def boom_def
          throwing_reporter_arg_def appending_plugin_def)
  ultimately show ?thesis unfolding M_def by simp
qed

text \<open>
  \<open>Object.assign\<close> at work: an \<open>afterCapture\<close> hook returning
  \<open>{...report, stack: undefined}\<close> clears the stack of the report, one returning the
  report without the property leaves it.
\<close>

lemma afterCapture_copies_undefined:
  "afterCapture_hooks
     [\<lparr>p_name = ''p'', beforeCapture = None,
       afterCapture = Some (\<lambda>r. (r, MergeFresh
         \<lparr>q_appId = r_appId r, q_timestamp = r_timestamp r, q_sessionId = r_sessionId r,
          q_eventId = r_eventId r, q_type = r_type r, q_level = r_level r,
          q_message = r_message r, q_stack = stack, q_context = r_context r,
          q_breadcrumbs = r_breadcrumbs r, q_extra = Absent\<rparr>)),
       beforeReport = None\<rparr>] report =
   Inr (report\<lparr>r_stack := (case stack of Absent \<Rightarrow> r_stack report | Undefined \<Rightarrow> None
                               | Present v \<Rightarrow> Some v)\<rparr>)"
  by (simp add: Object_assign_def)

text \<open>
  Claim C5 at a failing input. A monitor constructed with \<open>report: undefined\<close> has no
  batch queue: \<open>report\<close> hands the report to \<open>sendToServer\<close>, \<open>OfflineCache.send\<close> calls
  its sender at once when online, and what \<open>navigator.sendBeacon\<close> throws there leaves
  \<open>capture\<close>, no handler being on the way. In the same browser a monitor with batches of
  one calls the same primitive from \<open>sendReports\<close>, which catches the exception and logs
  it, and \<open>capture\<close> returns.
\<close>

theorem capture_raises_on_direct_path:
  "batchQueue direct_monitor = None \<and>
   snd (ErrorMonitor_capture (RawErrorType boom) None test_io direct_monitor) =
     Some (HostError ''beacon failed'') \<and>
   batchQueue batch_of_one_monitor \<noteq> None \<and>
   snd (ErrorMonitor_capture (RawErrorType boom) None test_io batch_of_one_monitor) = None \<and>
   map_option bq_console
     (batchQueue (fst (ErrorMonitor_capture (RawErrorType boom) None test_io
                         batch_of_one_monitor))) =
     Some [''[BatchQueue] Error sending reports:'']"
  by (simp add: direct_monitor_def batch_of_one_monitor_def throwing_beacon_browser_def em_eval
        test_arg_def test_browser_def test_io_def boom_def)

text \<open>
  Three more ways out of \<open>capture\<close>: what a \<open>beforeCapture\<close> hook throws; without
  \<open>window\<close>, the \<open>ReferenceError\<close> of \<open>window.setTimeout\<close> in \<open>scheduleFlush\<close>; and, with
  \<open>options.user\<close> given as \<open>undefined\<close>, the \<open>TypeError\<close> of \<open>opts.user.id\<close>.
\<close>

lemma other_exceptions:
  "snd (ErrorMonitor_capture (RawErrorType boom) None test_io
          (test_monitor test_arg [throwing_plugin])) = Some (HostError ''hook failed'') \<and>
   snd (ErrorMonitor_capture (RawErrorType boom) None test_io
          (ErrorMonitor_init (ErrorMonitor_new test_arg
             (test_browser\<lparr>window := None\<rparr>) ''session'' True None 1))) =
     Some (ReferenceError ''window'') \<and>
   snd (ErrorMonitor_capture (RawErrorType boom)
          (Some \<lparr>o_level = Absent, o_tags = None, o_extra = None, o_user = Undefined,
                 o_skipSampling = None, o_skipFilter = None\<rparr>) test_io
          (test_monitor test_arg [])) =
     Some (TypeError ''Cannot read properties of undefined (reading id)'')"
  by (simp add: em_eval test_monitor_def test_arg_def test_browser_def test_io_def boom_def
        throwing_plugin_def)

end
